theory Spec2Isabelle
  imports Main
begin

section \<open>Data model (Types.h, TaskQueue.h)\<close>

text \<open>
  \<^verbatim>\<open>TaskId\<close> is \<^verbatim>\<open>int64_t\<close> and the counter is advanced with \<^verbatim>\<open>++taskIdCounter_\<close>.
  Signed overflow is undefined in C++ and needs \<open>2^63\<close> insertions, so the counter is
  an \<open>int\<close> here. Time points of the monotonic clock are counted in ticks.
\<close>

type_synonym TaskId = int
type_synonym time_point = int

text \<open>
  A \<^verbatim>\<open>DispatchFunction\<close> is a \<^verbatim>\<open>std::function<void()>\<close>: it is empty (\<open>None\<close>) or
  holds a callable. All the queue ever does with a callable is to move it and to call
  it, so a callable is a label together with what its call does: it returns, or it
  throws. Calling an empty \<^verbatim>\<open>std::function\<close> throws \<^verbatim>\<open>std::bad_function_call\<close>.
  \<open>SyncLambda function\<close> is the lambda that \<^verbatim>\<open>ThreadedDispatchQueue::sync\<close> posts around
  the caller's \<^verbatim>\<open>function\<close>; it has no handler, so it throws what \<^verbatim>\<open>function\<close> throws.
  \<open>invoke\<close> gives what a call throws (\<open>None\<close>: it returns).
\<close>

datatype exn = bad_function_call | future_error | user_exception nat

datatype callable = Returning nat | Throwing nat exn | SyncLambda "callable option"

type_synonym DispatchFunction = "callable option"

fun invoke :: "DispatchFunction \<Rightarrow> exn option" where
  "invoke None = Some bad_function_call"
| "invoke (Some (Returning l)) = None"
| "invoke (Some (Throwing l e)) = Some e"
| "invoke (Some (SyncLambda f)) = invoke f"

datatype 'a result = Returned 'a | Raised exn

text \<open>
  \<^verbatim>\<open>struct Task\<close>. The member \<^verbatim>\<open>id\<close> is \<open>taskId\<close> and \<^verbatim>\<open>function\<close> is \<open>func\<close> here
  (both names are taken in Isabelle).
\<close>

record Task =
  taskId :: TaskId
  func :: DispatchFunction
  executeTime :: time_point
  isBarrier :: bool

record EnqueuedTask =
  enqueuedId :: TaskId
  isFirst :: bool

text \<open>
  What the queue does to the outside, in the order it happens: the two callbacks of
  \<^verbatim>\<open>IQueueListener\<close> (with the listener they are called on) and the calls of user
  callables.
\<close>

datatype effect = onQueueNonEmpty nat | onQueueEmpty nat | Invoked DispatchFunction

text \<open>
  The members of \<^verbatim>\<open>class TaskQueue\<close>, without their trailing underscore; \<^verbatim>\<open>empty_\<close>
  and \<^verbatim>\<open>first_\<close> are \<open>emptyFlag\<close> and \<open>firstFlag\<close>. The listener is a shared pointer:
  \<open>None\<close> is \<^verbatim>\<open>nullptr\<close>. The two \<^verbatim>\<open>size_t\<close> members are naturals below \<open>2^64\<close>, with
  the wrap-around of \<^verbatim>\<open>++\<close> and \<^verbatim>\<open>--\<close> written out. \<open>trace\<close> is not a member: it
  records the effects. The mutex is not modelled: every function below is one critical
  section, and the places where the code waits on the condition variable are explicit.
\<close>

record TaskQueue =
  disposed :: bool
  taskIdCounter :: TaskId
  tasks :: "Task list"
  emptyFlag :: bool
  firstFlag :: bool
  currentRunningTasks :: nat
  maxConcurrentTasks :: nat
  listener :: "nat option"
  trace :: "effect list"

definition size_inc :: "nat \<Rightarrow> nat" where
  "size_inc n = (n + 1) mod 2 ^ 64"

definition size_dec :: "nat \<Rightarrow> nat" where
  "size_dec n = (if n = 0 then 2 ^ 64 - 1 else n - 1)"

text \<open>The constructor and the default member initialisers.\<close>

definition newTaskQueue :: TaskQueue where
  "newTaskQueue = \<lparr>disposed = False, taskIdCounter = 0, tasks = [], emptyFlag = True,
     firstFlag = True, currentRunningTasks = 0, maxConcurrentTasks = 1, listener = None,
     trace = []\<rparr>"

section \<open>TaskQueue.cpp: the operations that do not wait\<close>

text \<open>
  \<^verbatim>\<open>dispose\<close>: sets the flag and swaps the task sequence out; a second call does
  nothing.
\<close>

definition dispose :: "TaskQueue \<Rightarrow> TaskQueue" where
  "dispose q = (if \<not> disposed q then q\<lparr>disposed := True, tasks := []\<rparr> else q)"

text \<open>The comparator handed to \<^verbatim>\<open>std::upper_bound\<close> in \<^verbatim>\<open>insertTask\<close>.\<close>

definition taskLess :: "Task \<Rightarrow> Task \<Rightarrow> bool" where
  "taskLess a b =
     (if executeTime a = executeTime b then taskId a < taskId b
      else executeTime a < executeTime b)"

text \<open>
  \<^verbatim>\<open>std::upper_bound(first, last, value, comp)\<close> returns the first position whose
  element \<open>e\<close> has \<open>comp value e\<close>, on a range that is partitioned for \<open>comp value\<close>;
  \<^verbatim>\<open>emplace\<close> puts the task there.
\<close>

definition emplaceUpperBound :: "Task \<Rightarrow> Task list \<Rightarrow> Task list" where
  "emplaceUpperBound t ts =
     takeWhile (\<lambda>e. \<not> taskLess t e) ts @ t # dropWhile (\<lambda>e. \<not> taskLess t e) ts"

definition insertTask ::
  "DispatchFunction \<Rightarrow> time_point \<Rightarrow> bool \<Rightarrow> TaskQueue \<Rightarrow> TaskId \<times> TaskQueue" where
  "insertTask f t b q =
     (let i = taskIdCounter q + 1;
          task = \<lparr>taskId = i, func = f, executeTime = t, isBarrier = b\<rparr>
      in (i, q\<lparr>taskIdCounter := i, tasks := emplaceUpperBound task (tasks q)\<rparr>))"

text \<open>The listener calls of \<^verbatim>\<open>enqueue\<close> and \<^verbatim>\<open>nextTask\<close>, guarded by the null test.\<close>

definition callNonEmpty :: "TaskQueue \<Rightarrow> TaskQueue" where
  "callNonEmpty q =
     (case listener q of None \<Rightarrow> q
      | Some l \<Rightarrow> q\<lparr>trace := trace q @ [onQueueNonEmpty l]\<rparr>)"

definition callEmpty :: "TaskQueue \<Rightarrow> TaskQueue" where
  "callEmpty q =
     (case listener q of None \<Rightarrow> q
      | Some l \<Rightarrow> q\<lparr>trace := trace q @ [onQueueEmpty l]\<rparr>)"

text \<open>
  \<^verbatim>\<open>enqueue(function, executeTime)\<close>. A default \<^verbatim>\<open>EnqueuedTask\<close> has id 0 and
  \<^verbatim>\<open>isFirst\<close> false.
\<close>

definition enqueue ::
  "DispatchFunction \<Rightarrow> time_point \<Rightarrow> TaskQueue \<Rightarrow> EnqueuedTask \<times> TaskQueue" where
  "enqueue f t q =
     (if disposed q then (\<lparr>enqueuedId = 0, isFirst = False\<rparr>, q)
      else
        let (i, q1) = insertTask f t False q;
            r = \<lparr>enqueuedId = i, isFirst = firstFlag q1\<rparr>;
            q2 = q1\<lparr>firstFlag := False\<rparr>;
            q3 = (if emptyFlag q2 then callNonEmpty (q2\<lparr>emptyFlag := False\<rparr>) else q2)
        in (r, q3))"

text \<open>\<^verbatim>\<open>lockFreeRemoveTask\<close>: the first entry with the id is erased.\<close>

fun eraseTask :: "TaskId \<Rightarrow> Task list \<Rightarrow> DispatchFunction \<times> Task list" where
  "eraseTask i [] = (None, [])"
| "eraseTask i (t # ts) =
     (if taskId t = i then (func t, ts)
      else let (f, ts') = eraseTask i ts in (f, t # ts'))"

definition lockFreeRemoveTask :: "TaskId \<Rightarrow> TaskQueue \<Rightarrow> DispatchFunction \<times> TaskQueue" where
  "lockFreeRemoveTask i q =
     (let (f, ts) = eraseTask i (tasks q) in (f, q\<lparr>tasks := ts\<rparr>))"

definition cancel :: "TaskId \<Rightarrow> TaskQueue \<Rightarrow> TaskQueue" where
  "cancel i q = snd (lockFreeRemoveTask i q)"

definition setMaxConcurrentTasks :: "nat \<Rightarrow> TaskQueue \<Rightarrow> TaskQueue" where
  "setMaxConcurrentTasks n q =
     (if maxConcurrentTasks q = n then q else q\<lparr>maxConcurrentTasks := n\<rparr>)"

definition setListener :: "nat option \<Rightarrow> TaskQueue \<Rightarrow> TaskQueue" where
  "setListener l q = q\<lparr>listener := l\<rparr>"

section \<open>Waiting on the condition variable\<close>

text \<open>
  Where a thread waits, or runs a callable, it does not hold the mutex. An \<open>interval\<close>
  says what happens meanwhile: how many ticks pass and what the other threads do to the
  queue. The environment of a call is the list of the intervals it will meet; when the
  list is used up, no other thread acts any more.

  \<^verbatim>\<open>wait_until(lock, deadline)\<close> reports \<^verbatim>\<open>timeout\<close> exactly when the deadline has expired
  at its return. With no other thread left it returns at the deadline. \<^verbatim>\<open>wait(lock)\<close>
  has no deadline: with no other thread left it never returns.
\<close>

datatype interval = Interval (elapsed: nat) (others: "TaskQueue \<Rightarrow> TaskQueue")

datatype cv_status = no_timeout | timeout

definition wait_until ::
  "time_point \<Rightarrow> time_point \<Rightarrow> interval list \<Rightarrow> TaskQueue
     \<Rightarrow> cv_status \<times> time_point \<times> interval list \<times> TaskQueue" where
  "wait_until deadline now env q =
     (case env of
        [] \<Rightarrow> (timeout, max now deadline, [], q)
      | w # env' \<Rightarrow>
          (if deadline \<le> now + int (elapsed w) then timeout else no_timeout,
           now + int (elapsed w), env', others w q))"

text \<open>The interval in which a callable runs, outside the lock.\<close>

definition unlocked ::
  "time_point \<Rightarrow> interval list \<Rightarrow> TaskQueue \<Rightarrow> time_point \<times> interval list \<times> TaskQueue" where
  "unlocked now env q =
     (case env of
        [] \<Rightarrow> (now, [], q)
      | w # env' \<Rightarrow> (now + int (elapsed w), env', others w q))"

section \<open>TaskQueue.cpp: nextTask and runNextTask\<close>

text \<open>The empty branch of \<^verbatim>\<open>nextTask\<close>: the edge of the empty flag and its callback.\<close>

definition noticeEmpty :: "TaskQueue \<Rightarrow> TaskQueue" where
  "noticeEmpty q = (if \<not> emptyFlag q then callEmpty (q\<lparr>emptyFlag := True\<rparr>) else q)"

text \<open>
  The measure for the termination of the loop, next to the length of the environment:
  with no other thread left, a loop that waited for the time of the head finds the
  head due.
\<close>

definition headWaits :: "time_point \<Rightarrow> TaskQueue \<Rightarrow> nat" where
  "headWaits now q = (if tasks q \<noteq> [] \<and> now < executeTime (hd (tasks q)) then 1 else 0)"

text \<open>
  The loop of \<^verbatim>\<open>nextTask\<close>. \<open>now\<close> is the clock when the iteration runs (the reading of
  \<^verbatim>\<open>steady_clock::now()\<close> in it). The result is \<^verbatim>\<open>hasTask\<close>, the clock, the rest of the
  environment and the queue when the loop is left.
\<close>

function nextTask_loop ::
  "time_point \<Rightarrow> time_point \<Rightarrow> interval list \<Rightarrow> TaskQueue
     \<Rightarrow> bool \<times> time_point \<times> interval list \<times> TaskQueue" where
  "nextTask_loop maxTime now env q =
     (if disposed q then (False, now, env, q)
      else if tasks q = [] then
        (case wait_until maxTime now env (noticeEmpty q) of
           (result, now', env', q') \<Rightarrow>
             if result = timeout then (False, now', env', q')
             else nextTask_loop maxTime now' env' q')
      else if maxConcurrentTasks q \<le> currentRunningTasks q then
        (case wait_until maxTime now env q of
           (result, now', env', q') \<Rightarrow>
             if result = timeout then (False, now', env', q')
             else nextTask_loop maxTime now' env' q')
      else if isBarrier (hd (tasks q)) then
        (case wait_until maxTime now env q of
           (result, now', env', q') \<Rightarrow>
             if result = timeout then (False, now', env', q')
             else nextTask_loop maxTime now' env' q')
      else if now < executeTime (hd (tasks q)) then
        (let maxTimeToWait = min maxTime (executeTime (hd (tasks q)))
         in case wait_until maxTimeToWait now env q of
           (result, now', env', q') \<Rightarrow>
             if maxTimeToWait = maxTime \<and> result = timeout then (False, now', env', q')
             else nextTask_loop maxTime now' env' q')
      else (True, now, env, q))"
  by pat_completeness auto
termination
  by (relation "measures [\<lambda>(maxTime, now, env, q). length env,
                          \<lambda>(maxTime, now, env, q). headWaits now q]")
     (auto simp: wait_until_def headWaits_def split: list.splits if_splits)

declare nextTask_loop.simps [simp del]

text \<open>
  The three statements that take the task out, at the end of \<^verbatim>\<open>nextTask\<close>. They run
  only after the loop has found a task, and then the sequence is not empty
  (\<open>nextTask_loop_hasTask\<close> below).
\<close>

definition popFront :: "TaskQueue \<Rightarrow> DispatchFunction \<times> TaskQueue" where
  "popFront q =
     (func (hd (tasks q)),
      q\<lparr>currentRunningTasks := size_inc (currentRunningTasks q), tasks := tl (tasks q)\<rparr>)"

text \<open>
  \<^verbatim>\<open>nextTask(maxTime, shouldRun)\<close>: the returned function and what \<^verbatim>\<open>*shouldRun\<close> holds
  afterwards (it is written only on the path that takes no task).
\<close>

definition nextTask ::
  "time_point \<Rightarrow> bool \<Rightarrow> time_point \<Rightarrow> interval list \<Rightarrow> TaskQueue
     \<Rightarrow> (DispatchFunction \<times> bool) \<times> time_point \<times> interval list \<times> TaskQueue" where
  "nextTask maxTime shouldRun now env q =
     (case nextTask_loop maxTime now env q of
        (hasTask, now', env', q') \<Rightarrow>
          if disposed q' \<or> \<not> hasTask then ((None, False), now', env', q')
          else (case popFront q' of (f, q'') \<Rightarrow> ((f, shouldRun), now', env', q'')))"

text \<open>A call of a callable, as it shows in the trace.\<close>

definition called :: "DispatchFunction \<Rightarrow> TaskQueue \<Rightarrow> TaskQueue" where
  "called f q = q\<lparr>trace := trace q @ [Invoked f]\<rparr>"

text \<open>The critical section at the end of \<^verbatim>\<open>runNextTask\<close>.\<close>

definition taskDone :: "TaskQueue \<Rightarrow> TaskQueue" where
  "taskDone q = q\<lparr>currentRunningTasks := size_dec (currentRunningTasks q)\<rparr>"

text \<open>
  \<^verbatim>\<open>runNextTask(maxTime)\<close>. There is no handler around \<^verbatim>\<open>task()\<close>: what the callable
  throws leaves \<^verbatim>\<open>runNextTask\<close>, and the decrement is skipped.
\<close>

definition runNextTask ::
  "time_point \<Rightarrow> time_point \<Rightarrow> interval list \<Rightarrow> TaskQueue
     \<Rightarrow> bool result \<times> time_point \<times> interval list \<times> TaskQueue" where
  "runNextTask maxTime now env q =
     (case nextTask maxTime True now env q of
        ((task, shouldRun), now1, env1, q1) \<Rightarrow>
          if shouldRun then
            (case unlocked now1 env1 (called task q1) of
               (now2, env2, q2) \<Rightarrow>
                 (case invoke task of
                    Some e \<Rightarrow> (Raised e, now2, env2, q2)
                  | None \<Rightarrow> (Returned True, now2, env2, taskDone q2)))
          else (Returned False, now1, env1, q1))"

section \<open>What an iteration of the loop of nextTask finds\<close>

text \<open>
  A task is runnable when the loop falls through all its four waiting branches: the
  queue is not disposed, the sequence is not empty, the running count is under the
  ceiling, the head is no barrier and its time has come.
\<close>

definition runnable :: "time_point \<Rightarrow> TaskQueue \<Rightarrow> bool" where
  "runnable now q =
     (\<not> disposed q \<and> tasks q \<noteq> [] \<and> currentRunningTasks q < maxConcurrentTasks q \<and>
      \<not> isBarrier (hd (tasks q)) \<and> executeTime (hd (tasks q)) \<le> now)"

text \<open>The deadline an iteration waits for when no task is runnable.\<close>

definition waitDeadline :: "time_point \<Rightarrow> TaskQueue \<Rightarrow> time_point" where
  "waitDeadline maxTime q =
     (if tasks q = [] \<or> maxConcurrentTasks q \<le> currentRunningTasks q \<or> isBarrier (hd (tasks q))
      then maxTime else min maxTime (executeTime (hd (tasks q))))"

text \<open>What such an iteration does to the queue before it waits.\<close>

definition idle :: "TaskQueue \<Rightarrow> TaskQueue" where
  "idle q = (if tasks q = [] then noticeEmpty q else q)"

lemma loop_disposed: "disposed q \<Longrightarrow> nextTask_loop maxTime now env q = (False, now, env, q)"
  by (simp add: nextTask_loop.simps)

lemma loop_runnable: "runnable now q \<Longrightarrow> nextTask_loop maxTime now env q = (True, now, env, q)"
  by (subst nextTask_loop.simps) (auto simp: runnable_def)

lemma loop_wait:
  "\<not> disposed q \<Longrightarrow> \<not> runnable now q \<Longrightarrow>
   nextTask_loop maxTime now env q =
     (case wait_until (waitDeadline maxTime q) now env (idle q) of
        (result, now', env', q') \<Rightarrow>
          if waitDeadline maxTime q = maxTime \<and> result = timeout then (False, now', env', q')
          else nextTask_loop maxTime now' env' q')"
  by (subst nextTask_loop.simps)
     (auto simp: runnable_def waitDeadline_def idle_def Let_def split: prod.splits)

lemma loop_induct [case_names step]:
  assumes "\<And>maxTime now env q.
     (\<And>r now' env' q'. \<not> disposed q \<Longrightarrow> \<not> runnable now q \<Longrightarrow>
        wait_until (waitDeadline maxTime q) now env (idle q) = (r, now', env', q') \<Longrightarrow>
        \<not> (waitDeadline maxTime q = maxTime \<and> r = timeout) \<Longrightarrow> P maxTime now' env' q')
     \<Longrightarrow> P maxTime now env q"
  shows "P maxTime now env q"
proof (induction maxTime now env q rule: nextTask_loop.induct)
  case (1 maxTime now env q)
  show ?case
  proof (rule assms)
    fix r now' env' q'
    assume a: "\<not> disposed q" "\<not> runnable now q"
      "wait_until (waitDeadline maxTime q) now env (idle q) = (r, now', env', q')"
      "\<not> (waitDeadline maxTime q = maxTime \<and> r = timeout)"
    show "P maxTime now' env' q'"
      using a
      by (cases "maxConcurrentTasks q \<le> currentRunningTasks q")
         (auto simp: runnable_def waitDeadline_def idle_def split: if_splits intro: "1.IH")
  qed
qed

lemma wait_until_env:
  "wait_until d now env q = (r, now', env', q') \<Longrightarrow>
     length env' \<le> length env \<and> (length env' = length env \<longrightarrow> q' = q)"
  by (auto simp: wait_until_def split: list.splits)

lemma tasks_idle: "tasks (idle q) = tasks q"
  by (simp add: idle_def noticeEmpty_def callEmpty_def split: option.splits)

lemma nextTask_loop_env:
  "nextTask_loop maxTime now env q = (h, now', env', q') \<Longrightarrow>
     length env' \<le> length env \<and> (length env' = length env \<longrightarrow> tasks q' = tasks q)"
proof (induction maxTime now env q rule: loop_induct)
  case (step maxTime now env q)
  show ?case
  proof (cases "disposed q")
    case True
    with step.prems show ?thesis by (simp add: loop_disposed)
  next
    case nd: False
    show ?thesis
    proof (cases "runnable now q")
      case True
      with step.prems show ?thesis by (simp add: loop_runnable)
    next
      case nr: False
      obtain r n1 e1 q1 where w: "wait_until (waitDeadline maxTime q) now env (idle q) = (r, n1, e1, q1)"
        by (metis prod_cases4)
      note we = wait_until_env [OF w]
      show ?thesis
      proof (cases "waitDeadline maxTime q = maxTime \<and> r = timeout")
        case True
        with step.prems nd nr w we show ?thesis
          by (auto simp: loop_wait tasks_idle)
      next
        case False
        with step.prems nd nr w have "nextTask_loop maxTime n1 e1 q1 = (h, now', env', q')"
          by (auto simp: loop_wait)
        from step.IH [OF nd nr w False this] we show ?thesis
          by (auto simp: tasks_idle)
      qed
    qed
  qed
qed

lemma nextTask_loop_hasTask:
  "nextTask_loop maxTime now env q = (True, now', env', q') \<Longrightarrow> runnable now' q'"
proof (induction maxTime now env q rule: loop_induct)
  case (step maxTime now env q)
  show ?case
  proof (cases "disposed q")
    case True
    with step.prems show ?thesis by (simp add: loop_disposed)
  next
    case nd: False
    show ?thesis
    proof (cases "runnable now q")
      case True
      with step.prems show ?thesis by (simp add: loop_runnable)
    next
      case nr: False
      obtain r n1 e1 q1 where w: "wait_until (waitDeadline maxTime q) now env (idle q) = (r, n1, e1, q1)"
        by (metis prod_cases4)
      show ?thesis
      proof (cases "waitDeadline maxTime q = maxTime \<and> r = timeout")
        case True
        with step.prems nd nr w show ?thesis
          by (auto simp: loop_wait)
      next
        case False
        with step.prems nd nr w have "nextTask_loop maxTime n1 e1 q1 = (True, now', env', q')"
          by (auto simp: loop_wait)
        from step.IH [OF nd nr w False this] show ?thesis .
      qed
    qed
  qed
qed

lemma unlocked_env:
  "unlocked now env q = (now', env', q') \<Longrightarrow>
     length env' < length env \<or> (env' = env \<and> q' = q)"
  by (auto simp: unlocked_def split: list.splits)

lemma runNextTask_progress:
  assumes "runNextTask maxTime now env q = (Returned True, now', env', q')"
  shows "length env' < length env \<or>
         (length env' = length env \<and> length (tasks q') < length (tasks q))"
proof -
  obtain h n1 e1 q1 where l: "nextTask_loop maxTime now env q = (h, n1, e1, q1)"
    by (metis prod_cases4)
  note le = nextTask_loop_env [OF l]
  from assms l have h: "h" "\<not> disposed q1"
    by (auto simp: runNextTask_def nextTask_def split: if_splits prod.splits option.splits)
  with l have "runnable n1 q1"
    by (simp add: nextTask_loop_hasTask)
  then have ne: "tasks q1 \<noteq> []" by (simp add: runnable_def)
  obtain n2 e2 q2 where
    u: "unlocked n1 e1 (called (func (hd (tasks q1))) (snd (popFront q1))) = (n2, e2, q2)"
    by (metis prod_cases3)
  from assms l h u have r: "env' = e2" "q' = taskDone q2"
    by (auto simp: runNextTask_def nextTask_def popFront_def split: option.splits)
  from unlocked_env [OF u] show ?thesis
  proof
    assume "length e2 < length e1"
    with le r show ?thesis by simp
  next
    assume "e2 = e1 \<and> q2 = called (func (hd (tasks q1))) (snd (popFront q1))"
    then have "tasks q' = tl (tasks q1)" "env' = e1"
      using r by (simp_all add: taskDone_def called_def popFront_def)
    moreover from ne have "length (tl (tasks q1)) < length (tasks q1)" by simp
    ultimately show ?thesis using le by auto
  qed
qed

section \<open>TaskQueue.cpp: flush\<close>

text \<open>
  \<^verbatim>\<open>flush\<close> calls \<^verbatim>\<open>runNextTask()\<close>, which reads the clock for its deadline, until it
  returns false; the first iteration of the loop of \<^verbatim>\<open>nextTask\<close> runs at that reading.
  The count cannot wrap: every task counted was held in memory. An exception of a
  callable leaves \<^verbatim>\<open>flush\<close> too.
\<close>

function flush_loop ::
  "nat \<Rightarrow> time_point \<Rightarrow> interval list \<Rightarrow> TaskQueue
     \<Rightarrow> nat result \<times> time_point \<times> interval list \<times> TaskQueue" where
  "flush_loop ranTasks now env q =
     (case runNextTask now now env q of
        (r, now', env', q') \<Rightarrow>
          if r = Returned True then flush_loop (ranTasks + 1) now' env' q'
          else (case r of Raised e \<Rightarrow> (Raised e, now', env', q')
                | Returned b \<Rightarrow> (Returned ranTasks, now', env', q')))"
  by pat_completeness auto
termination flush_loop
  by (relation "measures [\<lambda>(ranTasks, now, env, q). length env,
                          \<lambda>(ranTasks, now, env, q). length (tasks q)]")
     (auto dest: runNextTask_progress [OF sym])

declare flush_loop.simps [simp del]

definition flush ::
  "time_point \<Rightarrow> interval list \<Rightarrow> TaskQueue
     \<Rightarrow> nat result \<times> time_point \<times> interval list \<times> TaskQueue" where
  "flush now env q = flush_loop 0 now env q"

section \<open>TaskQueue.cpp: barrier and sync\<close>

definition barrierEnter :: "TaskQueue \<Rightarrow> TaskQueue" where
  "barrierEnter q = q\<lparr>currentRunningTasks := size_inc (currentRunningTasks q)\<rparr>"

definition barrierLeave :: "TaskId \<Rightarrow> TaskQueue \<Rightarrow> TaskQueue" where
  "barrierLeave i q = taskDone (snd (lockFreeRemoveTask i q))"

text \<open>
  The loop of \<^verbatim>\<open>barrier\<close>, after the placeholder with id \<open>i\<close> is in. \<open>None\<close>: the thread
  waits for ever. The unit result returns whether or not the callable ran; the trace
  tells.
\<close>

function barrier_loop ::
  "TaskId \<Rightarrow> DispatchFunction \<Rightarrow> time_point \<Rightarrow> interval list \<Rightarrow> TaskQueue
     \<Rightarrow> (unit result \<times> time_point \<times> interval list \<times> TaskQueue) option" where
  "barrier_loop i f now env q =
     (if tasks q = [] then Some (Returned (), now, env, q)
      else if currentRunningTasks q \<noteq> 0 \<or> taskId (hd (tasks q)) \<noteq> i then
        (case env of
           [] \<Rightarrow> None
         | w # env' \<Rightarrow> barrier_loop i f (now + int (elapsed w)) env' (others w q))
      else
        (case unlocked now env (called f (barrierEnter q)) of
           (now2, env2, q2) \<Rightarrow>
             (case invoke f of
                Some e \<Rightarrow> Some (Raised e, now2, env2, q2)
              | None \<Rightarrow> Some (Returned (), now2, env2, barrierLeave i q2))))"
  by pat_completeness auto
termination
  by (relation "measure (\<lambda>(i, f, now, env, q). length env)") auto

declare barrier_loop.simps [simp del]

definition barrier ::
  "DispatchFunction \<Rightarrow> time_point \<Rightarrow> interval list \<Rightarrow> TaskQueue
     \<Rightarrow> (unit result \<times> time_point \<times> interval list \<times> TaskQueue) option" where
  "barrier f now env q =
     (case insertTask None now True q of (i, q1) \<Rightarrow> barrier_loop i f now env q1)"


section \<open>The queue under several threads\<close>

text \<open>
  Between two waits a thread runs one critical section. An event is one critical section
  of one thread; a run of the system is a list of events. Besides the queue the system
  remembers where the threads are: the ids of the barrier placeholders whose thread
  waits in \<^verbatim>\<open>barrier\<close>, the ids whose thread runs the barrier callable, and the ids of
  the tasks popped by \<^verbatim>\<open>nextTask\<close> whose callable runs. An event that the code cannot
  perform in a state gives \<open>None\<close>.
\<close>

definition barrierReady :: "TaskId \<Rightarrow> TaskQueue \<Rightarrow> bool" where
  "barrierReady i q =
     (tasks q \<noteq> [] \<and> \<not> (currentRunningTasks q \<noteq> 0 \<or> taskId (hd (tasks q)) \<noteq> i))"

record System =
  queue :: TaskQueue
  waiting :: "TaskId list"
  inBarrier :: "TaskId list"
  inStep :: "TaskId list"

definition newSystem :: System where
  "newSystem = \<lparr>queue = newTaskQueue, waiting = [], inBarrier = [], inStep = []\<rparr>"

datatype event =
    Enqueue DispatchFunction time_point
  | Cancel TaskId
  | Dispose
  | SetMaxConcurrentTasks nat
  | SetListener "nat option"
  | BarrierInsert time_point
  | BarrierGiveUp TaskId
  | BarrierBegin TaskId DispatchFunction
  | BarrierEnd TaskId
  | StepIdle
  | StepPop time_point
  | StepDone TaskId

fun fire :: "event \<Rightarrow> System \<Rightarrow> System option" where
  "fire (Enqueue f t) c = Some (c\<lparr>queue := snd (enqueue f t (queue c))\<rparr>)"
| "fire (Cancel i) c = Some (c\<lparr>queue := cancel i (queue c)\<rparr>)"
| "fire Dispose c = Some (c\<lparr>queue := dispose (queue c)\<rparr>)"
| "fire (SetMaxConcurrentTasks n) c =
     (if n < 2 ^ 64 then Some (c\<lparr>queue := setMaxConcurrentTasks n (queue c)\<rparr>) else None)"
| "fire (SetListener l) c = Some (c\<lparr>queue := setListener l (queue c)\<rparr>)"
| "fire (BarrierInsert now) c =
     (case insertTask None now True (queue c) of
        (i, q) \<Rightarrow> Some (c\<lparr>queue := q, waiting := i # waiting c\<rparr>))"
| "fire (BarrierGiveUp i) c =
     (if i \<in> set (waiting c) \<and> tasks (queue c) = []
      then Some (c\<lparr>waiting := remove1 i (waiting c)\<rparr>) else None)"
| "fire (BarrierBegin i f) c =
     (if i \<in> set (waiting c) \<and> barrierReady i (queue c)
      then Some (c\<lparr>queue := called f (barrierEnter (queue c)),
                     waiting := remove1 i (waiting c), inBarrier := i # inBarrier c\<rparr>)
      else None)"
| "fire (BarrierEnd i) c =
     (if i \<in> set (inBarrier c)
      then Some (c\<lparr>queue := barrierLeave i (queue c), inBarrier := remove1 i (inBarrier c)\<rparr>)
      else None)"
| "fire StepIdle c =
     (if \<not> disposed (queue c) \<and> tasks (queue c) = []
      then Some (c\<lparr>queue := noticeEmpty (queue c)\<rparr>) else None)"
| "fire (StepPop now) c =
     (if runnable now (queue c)
      then Some (c\<lparr>queue := called (fst (popFront (queue c))) (snd (popFront (queue c))),
                     inStep := taskId (hd (tasks (queue c))) # inStep c\<rparr>)
      else None)"
| "fire (StepDone i) c =
     (if i \<in> set (inStep c)
      then Some (c\<lparr>queue := taskDone (queue c), inStep := remove1 i (inStep c)\<rparr>)
      else None)"

fun run :: "event list \<Rightarrow> System \<Rightarrow> System option" where
  "run [] c = Some c"
| "run (e # es) c = (case fire e c of None \<Rightarrow> None | Some c' \<Rightarrow> run es c')"

section \<open>The properties the claims speak of\<close>

text \<open>The order of the sequence: by execution time, then by id.\<close>

definition taskLeq :: "Task \<Rightarrow> Task \<Rightarrow> bool" where
  "taskLeq a b =
     (executeTime a < executeTime b \<or> (executeTime a = executeTime b \<and> taskId a \<le> taskId b))"

definition sortedTasks :: "Task list \<Rightarrow> bool" where
  "sortedTasks ts = sorted_wrt taskLeq ts"

text \<open>
  The listener callbacks of a trace alternate, and \<open>b\<close> tells which one is due next:
  \<^verbatim>\<open>onQueueNonEmpty\<close> when \<open>b\<close> holds.
\<close>

fun alternating :: "bool \<Rightarrow> effect list \<Rightarrow> bool" where
  "alternating b [] = True"
| "alternating b (onQueueNonEmpty l # es) = (b \<and> alternating False es)"
| "alternating b (onQueueEmpty l # es) = (\<not> b \<and> alternating True es)"
| "alternating b (Invoked f # es) = alternating b es"

text \<open>The listener is never taken away in a run.\<close>

fun keepsListener :: "event list \<Rightarrow> bool" where
  "keepsListener [] = True"
| "keepsListener (SetListener None # es) = False"
| "keepsListener (e # es) = keepsListener es"

text \<open>No listener is set in a run.\<close>

fun listenerFree :: "event list \<Rightarrow> bool" where
  "listenerFree [] = True"
| "listenerFree (SetListener (Some l) # es) = False"
| "listenerFree (e # es) = listenerFree es"

text \<open>
  Every \<^verbatim>\<open>setMaxConcurrentTasks(n)\<close> of a run asks for a ceiling of at least one that is
  not under the running count of the moment.
\<close>

fun ceilingKept :: "event list \<Rightarrow> System \<Rightarrow> bool" where
  "ceilingKept [] c = True"
| "ceilingKept (e # es) c =
     ((case e of SetMaxConcurrentTasks n \<Rightarrow>
          1 \<le> n \<and> currentRunningTasks (queue c) \<le> n
        | _ \<Rightarrow> True) \<and>
      (case fire e c of None \<Rightarrow> True | Some c' \<Rightarrow> ceilingKept es c'))"

text \<open>A task that a step may take: no barrier, and its time has come.\<close>

definition ready :: "time_point \<Rightarrow> Task \<Rightarrow> bool" where
  "ready now t = (\<not> isBarrier t \<and> executeTime t \<le> now)"

text \<open>
  What holds of the sequence and the counter between two events: the sequence is sorted,
  its ids are distinct and none is above the counter.
\<close>

definition wellOrdered :: "Task list \<Rightarrow> TaskId \<Rightarrow> bool" where
  "wellOrdered ts n =
     (sortedTasks ts \<and> distinct (map taskId ts) \<and> (\<forall>t\<in>set ts. taskId t \<le> n))"

definition ordered :: "System \<Rightarrow> bool" where
  "ordered c = wellOrdered (tasks (queue c)) (taskIdCounter (queue c))"

text \<open>An id that was given out and is not in the sequence (any more).\<close>

definition away :: "TaskId \<Rightarrow> TaskQueue \<Rightarrow> bool" where
  "away i q = (i \<le> taskIdCounter q \<and> i \<notin> taskId ` set (tasks q))"

definition stepsAway :: "System \<Rightarrow> bool" where
  "stepsAway c = (\<forall>i\<in>set (inStep c). away i (queue c))"

text \<open>An id that is neither pending nor running.\<close>

definition gone :: "TaskId \<Rightarrow> System \<Rightarrow> bool" where
  "gone i c = (away i (queue c) \<and> i \<notin> set (inStep c) \<and> i \<notin> set (inBarrier c))"

text \<open>
  The running count is the number of threads between an increment and its decrement,
  and the ceiling is a \<^verbatim>\<open>size_t\<close>.
\<close>

definition counted :: "System \<Rightarrow> bool" where
  "counted c =
     (currentRunningTasks (queue c) = length (inBarrier c) + length (inStep c) \<and>
      maxConcurrentTasks (queue c) < 2 ^ 64)"

definition underCeiling :: "System \<Rightarrow> bool" where
  "underCeiling c =
     (currentRunningTasks (queue c) \<le> maxConcurrentTasks (queue c) \<and>
      1 \<le> maxConcurrentTasks (queue c))"

text \<open>
  Which callback is due after a trace (\<^verbatim>\<open>onQueueNonEmpty\<close> when the result holds), and
  the state of a queue whose listener saw every edge of the empty flag.
\<close>

fun due :: "bool \<Rightarrow> effect list \<Rightarrow> bool" where
  "due b [] = b"
| "due b (onQueueNonEmpty l # es) = due False es"
| "due b (onQueueEmpty l # es) = due True es"
| "due b (Invoked f # es) = due b es"

definition listened :: "TaskQueue \<Rightarrow> bool" where
  "listened q =
     (listener q \<noteq> None \<and> alternating True (trace q) \<and> due True (trace q) = emptyFlag q)"

text \<open>
  The state of a queue that never had a listener: none is set and the trace holds no
  callback.
\<close>

definition unheard :: "TaskQueue \<Rightarrow> bool" where
  "unheard q = (listener q = None \<and> alternating True (trace q) \<and> due True (trace q))"

section \<open>ThreadedDispatchQueue.cpp: sync on the worker thread\<close>

text \<open>
  The shared state of the \<^verbatim>\<open>std::promise<void>\<close> that \<^verbatim>\<open>sync\<close> creates, and
  \<^verbatim>\<open>future.get()\<close> on it: \<open>None\<close> when the caller stays blocked.
\<close>

datatype promise = not_ready | has_value | has_exception exn

fun future_get :: "promise \<Rightarrow> unit result option" where
  "future_get not_ready = None"
| "future_get has_value = Some (Returned ())"
| "future_get (has_exception e) = Some (Raised e)"

record ThreadedDispatchQueue =
  taskQueue :: TaskQueue
  disableSyncCallsInCallingThread :: bool
  runningSync :: bool
  threadStarted :: bool

definition newThreadedDispatchQueue :: ThreadedDispatchQueue where
  "newThreadedDispatchQueue =
     \<lparr>taskQueue = newTaskQueue, disableSyncCallsInCallingThread = False,
      runningSync = False, threadStarted = False\<rparr>"

definition setDisableSyncCallsInCallingThread ::
  "bool \<Rightarrow> ThreadedDispatchQueue \<Rightarrow> ThreadedDispatchQueue" where
  "setDisableSyncCallsInCallingThread b dq = dq\<lparr>disableSyncCallsInCallingThread := b\<rparr>"

text \<open>\<^verbatim>\<open>async\<close>: enqueue at the current time, and start the worker on the first task.\<close>

definition async ::
  "DispatchFunction \<Rightarrow> time_point \<Rightarrow> ThreadedDispatchQueue \<Rightarrow> ThreadedDispatchQueue" where
  "async f now dq =
     (case enqueue f now (taskQueue dq) of
        (task, q) \<Rightarrow> dq\<lparr>taskQueue := q, threadStarted := (threadStarted dq \<or> isFirst task)\<rparr>)"

text \<open>
  The body of the lambda that \<^verbatim>\<open>sync\<close> posts when
  \<^verbatim>\<open>disableSyncCallsInCallingThread_\<close> is set: \<^verbatim>\<open>runningSync_ = true; function();
  promise.set_value(); runningSync_ = false;\<close>. It has no \<^verbatim>\<open>try\<close>: when \<^verbatim>\<open>function()\<close>
  throws, the two statements after it are skipped. \<^verbatim>\<open>set_value\<close> on a promise that
  is already satisfied throws \<^verbatim>\<open>std::future_error\<close>.
\<close>

definition syncLambda ::
  "DispatchFunction \<Rightarrow> bool \<times> promise \<Rightarrow> unit result \<times> bool \<times> promise" where
  "syncLambda function c =
     (case invoke function of
        Some e \<Rightarrow> (Raised e, True, snd c)
      | None \<Rightarrow>
          (case snd c of
             not_ready \<Rightarrow> (Returned (), False, has_value)
           | _ \<Rightarrow> (Raised future_error, True, snd c)))"

text \<open>What the call of a task writes to \<^verbatim>\<open>runningSync_\<close> and to the promise.\<close>

definition callableWrites :: "DispatchFunction \<Rightarrow> bool \<times> promise \<Rightarrow> bool \<times> promise" where
  "callableWrites task c =
     (case task of Some (SyncLambda function) \<Rightarrow> snd (syncLambda function c) | _ \<Rightarrow> c)"

text \<open>
  One iteration of the worker's \<^verbatim>\<open>handler\<close>: \<^verbatim>\<open>runNextTask(now + 100000 s)\<close>, with the
  clock in nanoseconds. The handler has no \<^verbatim>\<open>try\<close> either: a raised result leaves the
  thread function.
\<close>

definition handlerIteration ::
  "time_point \<Rightarrow> interval list \<Rightarrow> ThreadedDispatchQueue \<times> promise
     \<Rightarrow> bool result \<times> ThreadedDispatchQueue \<times> promise" where
  "handlerIteration now env c =
     (let dq = fst c;
          maxTime = now + 100000 * 1000000000;
          started = fst (nextTask maxTime True now env (taskQueue dq));
          r = runNextTask maxTime now env (taskQueue dq);
          w = (if snd started then callableWrites (fst started) (runningSync dq, snd c)
               else (runningSync dq, snd c))
      in (fst r, dq\<lparr>taskQueue := snd (snd (snd r)), runningSync := fst w\<rparr>, snd w))"

text \<open>
  \<^verbatim>\<open>sync\<close> with \<^verbatim>\<open>disableSyncCallsInCallingThread_\<close> set, when the worker takes the posted
  lambda in its next iteration and no other thread interferes: what the caller gets
  from \<^verbatim>\<open>future.get()\<close>, what the worker's \<^verbatim>\<open>runNextTask\<close> does, and the queue.
\<close>

definition sync_onWorker ::
  "DispatchFunction \<Rightarrow> time_point \<Rightarrow> ThreadedDispatchQueue
     \<Rightarrow> unit result option \<times> bool result \<times> ThreadedDispatchQueue" where
  "sync_onWorker function now dq =
     (let dq1 = async (Some (SyncLambda function)) now dq;
          r = handlerIteration now [] (dq1, not_ready)
      in (future_get (snd (snd r)), fst r, fst (snd r)))"

section \<open>Facts about insertion and removal\<close>

lemma emplaceUpperBound_Cons:
  "emplaceUpperBound t (a # ts) =
     (if taskLess t a then t # a # ts else a # emplaceUpperBound t ts)"
  by (simp add: emplaceUpperBound_def)

lemma emplaceUpperBound_Nil: "emplaceUpperBound t [] = [t]"
  by (simp add: emplaceUpperBound_def)

lemma set_emplaceUpperBound: "set (emplaceUpperBound t ts) = insert t (set ts)"
  by (induction ts) (auto simp: emplaceUpperBound_Cons emplaceUpperBound_Nil)

lemma not_taskLess_taskLeq: "\<not> taskLess t a \<Longrightarrow> taskLeq a t"
  by (auto simp: taskLess_def taskLeq_def split: if_splits)

lemma taskLess_taskLeq_trans: "taskLess t a \<Longrightarrow> taskLeq a y \<Longrightarrow> taskLeq t y"
  by (auto simp: taskLess_def taskLeq_def split: if_splits)

lemma taskLess_taskLeq: "taskLess t a \<Longrightarrow> taskLeq t a"
  by (auto simp: taskLess_def taskLeq_def split: if_splits)

lemma sortedTasks_emplaceUpperBound:
  "sortedTasks ts \<Longrightarrow> sortedTasks (emplaceUpperBound t ts)"
proof (induction ts)
  case Nil
  then show ?case by (simp add: emplaceUpperBound_Nil sortedTasks_def)
next
  case (Cons a ts)
  show ?case
  proof (cases "taskLess t a")
    case True
    with Cons.prems show ?thesis
      by (auto simp: emplaceUpperBound_Cons sortedTasks_def
          intro: taskLess_taskLeq taskLess_taskLeq_trans)
  next
    case False
    with Cons show ?thesis
      by (auto simp: emplaceUpperBound_Cons sortedTasks_def set_emplaceUpperBound
          intro: not_taskLess_taskLeq)
  qed
qed

lemma map_taskId_emplaceUpperBound:
  "set (map taskId (emplaceUpperBound t ts)) = insert (taskId t) (taskId ` set ts)"
  by (simp add: set_emplaceUpperBound)

lemma distinct_emplaceUpperBound:
  "distinct (map taskId ts) \<Longrightarrow> taskId t \<notin> taskId ` set ts \<Longrightarrow>
   distinct (map taskId (emplaceUpperBound t ts))"
  by (induction ts) (auto simp: emplaceUpperBound_Cons emplaceUpperBound_Nil set_emplaceUpperBound)

lemma sortedTasks_times:
  "sortedTasks (a # ts) \<Longrightarrow> y \<in> set ts \<Longrightarrow> executeTime a \<le> executeTime y"
  by (auto simp: sortedTasks_def taskLeq_def)

lemma sortedTasks_tail: "sortedTasks (a # ts) \<Longrightarrow> sortedTasks ts"
  by (simp add: sortedTasks_def)

lemma emplaceUpperBound_fifo:
  "sortedTasks ts \<Longrightarrow> \<forall>x\<in>set ts. taskId x < taskId t \<Longrightarrow>
   emplaceUpperBound t ts =
     filter (\<lambda>x. executeTime x \<le> executeTime t) ts @ t #
     filter (\<lambda>x. executeTime t < executeTime x) ts"
proof (induction ts)
  case Nil
  then show ?case by (simp add: emplaceUpperBound_Nil)
next
  case (Cons a ts)
  have ih: "emplaceUpperBound t ts =
     filter (\<lambda>x. executeTime x \<le> executeTime t) ts @ t #
     filter (\<lambda>x. executeTime t < executeTime x) ts"
    using Cons by (simp add: sortedTasks_tail)
  have ida: "taskId a < taskId t" using Cons.prems(2) by simp
  show ?case
  proof (cases "taskLess t a")
    case True
    with ida have lt: "executeTime t < executeTime a"
      by (auto simp: taskLess_def split: if_splits)
    have "\<forall>y\<in>set ts. executeTime t < executeTime y"
      using sortedTasks_times [OF Cons.prems(1)] lt by fastforce
    then have "filter (\<lambda>x. executeTime x \<le> executeTime t) ts = []"
      and "filter (\<lambda>x. executeTime t < executeTime x) ts = ts"
      by (auto simp: filter_empty_conv filter_id_conv)
    with True lt show ?thesis
      by (simp add: emplaceUpperBound_Cons)
  next
    case False
    with ida have "executeTime a \<le> executeTime t"
      by (auto simp: taskLess_def split: if_splits)
    with False ih show ?thesis
      by (simp add: emplaceUpperBound_Cons)
  qed
qed

lemma eraseTask_absent: "i \<notin> taskId ` set ts \<Longrightarrow> eraseTask i ts = (None, ts)"
  by (induction ts) auto

lemma eraseTask_distinct:
  "distinct (map taskId ts) \<Longrightarrow> snd (eraseTask i ts) = filter (\<lambda>t. taskId t \<noteq> i) ts"
proof (induction ts)
  case Nil
  then show ?case by simp
next
  case (Cons a ts)
  show ?case
  proof (cases "taskId a = i")
    case True
    with Cons.prems have "i \<notin> taskId ` set ts" by auto
    then have "filter (\<lambda>t. taskId t \<noteq> i) ts = ts"
      by (auto simp: filter_id_conv)
    with True show ?thesis by simp
  next
    case False
    with Cons show ?thesis by (simp add: split_beta)
  qed
qed

lemma wellOrdered_filter: "wellOrdered ts n \<Longrightarrow> wellOrdered (filter P ts) n"
  by (auto simp: wellOrdered_def sortedTasks_def intro: sorted_wrt_filter distinct_map_filter)

lemma wellOrdered_erase:
  assumes "wellOrdered ts n"
  shows "wellOrdered (snd (eraseTask i ts)) n"
proof -
  from assms have "distinct (map taskId ts)" by (simp add: wellOrdered_def)
  then have "snd (eraseTask i ts) = filter (\<lambda>t. taskId t \<noteq> i) ts"
    by (rule eraseTask_distinct)
  with wellOrdered_filter [OF assms] show ?thesis by simp
qed

lemma wellOrdered_tl: "wellOrdered ts n \<Longrightarrow> wellOrdered (tl ts) n"
  by (cases ts) (auto simp: wellOrdered_def sortedTasks_def)

lemma wellOrdered_Nil: "wellOrdered [] n"
  by (simp add: wellOrdered_def sortedTasks_def)

lemma wellOrdered_emplace:
  "wellOrdered ts n \<Longrightarrow>
   wellOrdered (emplaceUpperBound \<lparr>taskId = n + 1, func = f, executeTime = t, isBarrier = b\<rparr> ts)
     (n + 1)"
  unfolding wellOrdered_def
  by (auto simp: sortedTasks_emplaceUpperBound set_emplaceUpperBound
      intro!: distinct_emplaceUpperBound)

section \<open>What each operation does to the members\<close>

lemma tasks_insertTask:
  "tasks (snd (insertTask f t b q)) =
     emplaceUpperBound \<lparr>taskId = taskIdCounter q + 1, func = f, executeTime = t, isBarrier = b\<rparr>
       (tasks q)"
  by (simp add: insertTask_def Let_def)

lemma counter_insertTask: "taskIdCounter (snd (insertTask f t b q)) = taskIdCounter q + 1"
  by (simp add: insertTask_def Let_def)

lemma fst_insertTask: "fst (insertTask f t b q) = taskIdCounter q + 1"
  by (simp add: insertTask_def Let_def)

lemma rest_insertTask:
  "disposed (snd (insertTask f t b q)) = disposed q"
  "emptyFlag (snd (insertTask f t b q)) = emptyFlag q"
  "firstFlag (snd (insertTask f t b q)) = firstFlag q"
  "currentRunningTasks (snd (insertTask f t b q)) = currentRunningTasks q"
  "maxConcurrentTasks (snd (insertTask f t b q)) = maxConcurrentTasks q"
  "listener (snd (insertTask f t b q)) = listener q"
  "trace (snd (insertTask f t b q)) = trace q"
  by (simp_all add: insertTask_def Let_def)

lemma callNonEmpty_members:
  "tasks (callNonEmpty q) = tasks q"
  "taskIdCounter (callNonEmpty q) = taskIdCounter q"
  "disposed (callNonEmpty q) = disposed q"
  "emptyFlag (callNonEmpty q) = emptyFlag q"
  "currentRunningTasks (callNonEmpty q) = currentRunningTasks q"
  "maxConcurrentTasks (callNonEmpty q) = maxConcurrentTasks q"
  "listener (callNonEmpty q) = listener q"
  by (simp_all add: callNonEmpty_def split: option.splits)

lemma callEmpty_members:
  "tasks (callEmpty q) = tasks q"
  "taskIdCounter (callEmpty q) = taskIdCounter q"
  "disposed (callEmpty q) = disposed q"
  "emptyFlag (callEmpty q) = emptyFlag q"
  "currentRunningTasks (callEmpty q) = currentRunningTasks q"
  "maxConcurrentTasks (callEmpty q) = maxConcurrentTasks q"
  "listener (callEmpty q) = listener q"
  by (simp_all add: callEmpty_def split: option.splits)

lemma enqueue_members:
  "tasks (snd (enqueue f t q)) =
     (if disposed q then tasks q else tasks (snd (insertTask f t False q)))"
  "taskIdCounter (snd (enqueue f t q)) =
     (if disposed q then taskIdCounter q else taskIdCounter q + 1)"
  "disposed (snd (enqueue f t q)) = disposed q"
  "currentRunningTasks (snd (enqueue f t q)) = currentRunningTasks q"
  "maxConcurrentTasks (snd (enqueue f t q)) = maxConcurrentTasks q"
  "listener (snd (enqueue f t q)) = listener q"
  by (simp_all add: enqueue_def split_beta Let_def callNonEmpty_members rest_insertTask
      counter_insertTask)

lemma cancel_members:
  "tasks (cancel i q) = snd (eraseTask i (tasks q))"
  "taskIdCounter (cancel i q) = taskIdCounter q"
  "disposed (cancel i q) = disposed q"
  "emptyFlag (cancel i q) = emptyFlag q"
  "currentRunningTasks (cancel i q) = currentRunningTasks q"
  "maxConcurrentTasks (cancel i q) = maxConcurrentTasks q"
  "listener (cancel i q) = listener q"
  "trace (cancel i q) = trace q"
  by (simp_all add: cancel_def lockFreeRemoveTask_def split_beta)

lemma dispose_members:
  "tasks (dispose q) = (if disposed q then tasks q else [])"
  "taskIdCounter (dispose q) = taskIdCounter q"
  "disposed (dispose q) = True"
  "emptyFlag (dispose q) = emptyFlag q"
  "currentRunningTasks (dispose q) = currentRunningTasks q"
  "maxConcurrentTasks (dispose q) = maxConcurrentTasks q"
  "listener (dispose q) = listener q"
  "trace (dispose q) = trace q"
  by (simp_all add: dispose_def)

lemma setMaxConcurrentTasks_members:
  "tasks (setMaxConcurrentTasks n q) = tasks q"
  "taskIdCounter (setMaxConcurrentTasks n q) = taskIdCounter q"
  "disposed (setMaxConcurrentTasks n q) = disposed q"
  "emptyFlag (setMaxConcurrentTasks n q) = emptyFlag q"
  "currentRunningTasks (setMaxConcurrentTasks n q) = currentRunningTasks q"
  "maxConcurrentTasks (setMaxConcurrentTasks n q) = n"
  "listener (setMaxConcurrentTasks n q) = listener q"
  "trace (setMaxConcurrentTasks n q) = trace q"
  by (simp_all add: setMaxConcurrentTasks_def)

lemma setListener_members:
  "tasks (setListener l q) = tasks q"
  "taskIdCounter (setListener l q) = taskIdCounter q"
  "disposed (setListener l q) = disposed q"
  "emptyFlag (setListener l q) = emptyFlag q"
  "currentRunningTasks (setListener l q) = currentRunningTasks q"
  "maxConcurrentTasks (setListener l q) = maxConcurrentTasks q"
  "listener (setListener l q) = l"
  "trace (setListener l q) = trace q"
  by (simp_all add: setListener_def)

lemma noticeEmpty_members:
  "tasks (noticeEmpty q) = tasks q"
  "taskIdCounter (noticeEmpty q) = taskIdCounter q"
  "disposed (noticeEmpty q) = disposed q"
  "emptyFlag (noticeEmpty q) = True"
  "currentRunningTasks (noticeEmpty q) = currentRunningTasks q"
  "maxConcurrentTasks (noticeEmpty q) = maxConcurrentTasks q"
  "listener (noticeEmpty q) = listener q"
  by (simp_all add: noticeEmpty_def callEmpty_members)

lemma called_members:
  "tasks (called f q) = tasks q"
  "taskIdCounter (called f q) = taskIdCounter q"
  "disposed (called f q) = disposed q"
  "emptyFlag (called f q) = emptyFlag q"
  "currentRunningTasks (called f q) = currentRunningTasks q"
  "maxConcurrentTasks (called f q) = maxConcurrentTasks q"
  "listener (called f q) = listener q"
  "trace (called f q) = trace q @ [Invoked f]"
  by (simp_all add: called_def)

lemma popFront_members:
  "tasks (snd (popFront q)) = tl (tasks q)"
  "taskIdCounter (snd (popFront q)) = taskIdCounter q"
  "disposed (snd (popFront q)) = disposed q"
  "emptyFlag (snd (popFront q)) = emptyFlag q"
  "currentRunningTasks (snd (popFront q)) = size_inc (currentRunningTasks q)"
  "maxConcurrentTasks (snd (popFront q)) = maxConcurrentTasks q"
  "listener (snd (popFront q)) = listener q"
  "trace (snd (popFront q)) = trace q"
  "fst (popFront q) = func (hd (tasks q))"
  by (simp_all add: popFront_def)

lemma taskDone_members:
  "tasks (taskDone q) = tasks q"
  "taskIdCounter (taskDone q) = taskIdCounter q"
  "disposed (taskDone q) = disposed q"
  "emptyFlag (taskDone q) = emptyFlag q"
  "currentRunningTasks (taskDone q) = size_dec (currentRunningTasks q)"
  "maxConcurrentTasks (taskDone q) = maxConcurrentTasks q"
  "listener (taskDone q) = listener q"
  "trace (taskDone q) = trace q"
  by (simp_all add: taskDone_def)

lemma barrierEnter_members:
  "tasks (barrierEnter q) = tasks q"
  "taskIdCounter (barrierEnter q) = taskIdCounter q"
  "disposed (barrierEnter q) = disposed q"
  "emptyFlag (barrierEnter q) = emptyFlag q"
  "currentRunningTasks (barrierEnter q) = size_inc (currentRunningTasks q)"
  "maxConcurrentTasks (barrierEnter q) = maxConcurrentTasks q"
  "listener (barrierEnter q) = listener q"
  "trace (barrierEnter q) = trace q"
  by (simp_all add: barrierEnter_def)

lemma barrierLeave_members:
  "tasks (barrierLeave i q) = snd (eraseTask i (tasks q))"
  "taskIdCounter (barrierLeave i q) = taskIdCounter q"
  "disposed (barrierLeave i q) = disposed q"
  "emptyFlag (barrierLeave i q) = emptyFlag q"
  "currentRunningTasks (barrierLeave i q) = size_dec (currentRunningTasks q)"
  "maxConcurrentTasks (barrierLeave i q) = maxConcurrentTasks q"
  "listener (barrierLeave i q) = listener q"
  "trace (barrierLeave i q) = trace q"
  by (simp_all add: barrierLeave_def taskDone_def lockFreeRemoveTask_def split_beta)

lemmas members =
  rest_insertTask tasks_insertTask counter_insertTask fst_insertTask
  enqueue_members cancel_members dispose_members setMaxConcurrentTasks_members
  setListener_members noticeEmpty_members called_members popFront_members
  taskDone_members barrierEnter_members barrierLeave_members

section \<open>Facts about runs\<close>

lemma run_append:
  "run (es @ es') c = (case run es c of None \<Rightarrow> None | Some c' \<Rightarrow> run es' c')"
  by (induction es arbitrary: c) (auto split: option.splits)

lemma run_invariant:
  assumes step: "\<And>e c c'. P c \<Longrightarrow> fire e c = Some c' \<Longrightarrow> P c'"
  shows "P c \<Longrightarrow> run es c = Some c' \<Longrightarrow> P c'"
proof (induction es arbitrary: c)
  case Nil
  then show ?case by simp
next
  case (Cons e es)
  then obtain c1 where f: "fire e c = Some c1" and r: "run es c1 = Some c'"
    by (auto split: option.splits)
  from step [OF Cons.prems(1) f] Cons.IH r show ?case by blast
qed

lemma wellOrdered_mono: "wellOrdered ts n \<Longrightarrow> n \<le> m \<Longrightarrow> wellOrdered ts m"
  by (auto simp: wellOrdered_def)

lemma ordered_fire: "ordered c \<Longrightarrow> fire e c = Some c' \<Longrightarrow> ordered c'"
proof (cases e)
  case (Enqueue f t)
  assume "ordered c" "fire e c = Some c'"
  with Enqueue show ?thesis
    by (auto simp: ordered_def members wellOrdered_emplace)
next
  case (BarrierInsert now)
  assume "ordered c" "fire e c = Some c'"
  with BarrierInsert wellOrdered_emplace [of "tasks (queue c)" "taskIdCounter (queue c)" None now True]
  show ?thesis
    by (auto simp: ordered_def insertTask_def Let_def)
qed (auto simp: ordered_def members wellOrdered_erase wellOrdered_tl wellOrdered_Nil
      split: if_splits)

lemma ordered_new: "ordered newSystem"
  by (simp add: ordered_def newSystem_def newTaskQueue_def wellOrdered_Nil)

lemma ordered_run:
  assumes "run es newSystem = Some c"
  shows "ordered c"
  using run_invariant [where P = ordered, OF ordered_fire ordered_new assms] .

lemma eraseTask_subset: "set (snd (eraseTask i ts)) \<subseteq> set ts"
  by (induction ts) (auto simp: split_beta)

lemma ids_erase: "x \<notin> taskId ` set ts \<Longrightarrow> x \<notin> taskId ` set (snd (eraseTask i ts))"
  using eraseTask_subset [of i ts] by auto

lemma ids_tl: "x \<notin> taskId ` set ts \<Longrightarrow> x \<notin> taskId ` set (tl ts)"
  by (cases ts) auto

lemma in_remove1: "x \<in> set (remove1 y xs) \<Longrightarrow> x \<in> set xs"
  using set_remove1_subset [of y xs] by auto

lemma in_tl: "x \<in> set (tl ts) \<Longrightarrow> x \<in> set ts"
  by (cases ts) auto

lemma in_erase: "x \<in> set (snd (eraseTask i ts)) \<Longrightarrow> x \<in> set ts"
  using eraseTask_subset [of i ts] by auto

lemma wellOrdered_hd:
  "wellOrdered ts n \<Longrightarrow> ts \<noteq> [] \<Longrightarrow> taskId (hd ts) \<le> n \<and> taskId (hd ts) \<notin> taskId ` set (tl ts)"
  by (cases ts) (auto simp: wellOrdered_def)

lemma away_insertTask: "away i q \<Longrightarrow> away i (snd (insertTask f t b q))"
  by (simp add: away_def members set_emplaceUpperBound)

lemma away_enqueue: "away i q \<Longrightarrow> away i (snd (enqueue f t q))"
  using away_insertTask [of i q f t False] by (simp add: away_def members)

lemma away_cancel: "away i q \<Longrightarrow> away i (cancel j q)"
  by (simp add: away_def members ids_erase)

lemma away_dispose: "away i q \<Longrightarrow> away i (dispose q)"
  by (auto simp: away_def members)

lemma away_setMaxConcurrentTasks: "away i q \<Longrightarrow> away i (setMaxConcurrentTasks n q)"
  by (simp add: away_def members)

lemma away_setListener: "away i q \<Longrightarrow> away i (setListener l q)"
  by (simp add: away_def members)

lemma away_noticeEmpty: "away i q \<Longrightarrow> away i (noticeEmpty q)"
  by (simp add: away_def members)

lemma away_called: "away i q \<Longrightarrow> away i (called f q)"
  by (simp add: away_def members)

lemma away_barrierEnter: "away i q \<Longrightarrow> away i (barrierEnter q)"
  by (simp add: away_def members)

lemma away_barrierLeave: "away i q \<Longrightarrow> away i (barrierLeave j q)"
  by (simp add: away_def members ids_erase)

lemma away_taskDone: "away i q \<Longrightarrow> away i (taskDone q)"
  by (simp add: away_def members)

lemma away_popFront: "away i q \<Longrightarrow> away i (snd (popFront q))"
  by (simp add: away_def members ids_tl)

lemma away_popped:
  "wellOrdered (tasks q) (taskIdCounter q) \<Longrightarrow> tasks q \<noteq> [] \<Longrightarrow>
   away (taskId (hd (tasks q))) (snd (popFront q))"
  using wellOrdered_hd [of "tasks q" "taskIdCounter q"] by (simp add: away_def members)

lemmas away_ops =
  away_insertTask away_enqueue away_cancel away_dispose away_setMaxConcurrentTasks
  away_setListener away_noticeEmpty away_called away_barrierEnter away_barrierLeave
  away_taskDone away_popFront

lemma fire_queue_away: "away i (queue c) \<Longrightarrow> fire e c = Some c' \<Longrightarrow> away i (queue c')"
  by (cases e) (auto simp: split_beta split: if_splits intro!: away_ops)

lemma inStep_fire:
  "fire e c = Some c' \<Longrightarrow> i \<in> set (inStep c') \<Longrightarrow>
   i \<in> set (inStep c) \<or> (\<exists>now. e = StepPop now \<and> i = taskId (hd (tasks (queue c))))"
  by (cases e) (auto simp: split_beta split: if_splits dest: in_remove1)

lemma apart_fire:
  assumes "ordered c \<and> stepsAway c" and "fire e c = Some c'"
  shows "ordered c' \<and> stepsAway c'"
proof -
  from assms have o: "ordered c'" by (auto intro: ordered_fire)
  have wo: "wellOrdered (tasks (queue c)) (taskIdCounter (queue c))"
    using assms(1) by (simp add: ordered_def)
  have "away i (queue c')" if i: "i \<in> set (inStep c')" for i
  proof -
    from inStep_fire [OF assms(2) i] show ?thesis
    proof
      assume "i \<in> set (inStep c)"
      with assms(1) have "away i (queue c)" by (simp add: stepsAway_def)
      then show ?thesis using assms(2) by (rule fire_queue_away)
    next
      assume "\<exists>now. e = StepPop now \<and> i = taskId (hd (tasks (queue c)))"
      then obtain now where e: "e = StepPop now" and ih: "i = taskId (hd (tasks (queue c)))"
        by blast
      with assms(2) have r: "runnable now (queue c)" by (simp split: if_splits)
      then have ne: "tasks (queue c) \<noteq> []" by (simp add: runnable_def)
      from away_popped [OF wo ne] have "away i (called (fst (popFront (queue c))) (snd (popFront (queue c))))"
        using ih by (simp add: away_called)
      with assms(2) e r show ?thesis by auto
    qed
  qed
  then have "stepsAway c'" by (simp add: stepsAway_def)
  with o show ?thesis by simp
qed

lemma apart_run:
  assumes "run es newSystem = Some c"
  shows "ordered c \<and> stepsAway c"
proof -
  have "stepsAway newSystem"
    by (simp add: stepsAway_def newSystem_def)
  with ordered_new have "ordered newSystem \<and> stepsAway newSystem" ..
  from run_invariant [where P = "\<lambda>c. ordered c \<and> stepsAway c", OF apart_fire this assms]
  show ?thesis .
qed

lemma inBarrier_fire:
  "fire e c = Some c' \<Longrightarrow> i \<in> set (inBarrier c') \<Longrightarrow>
   i \<in> set (inBarrier c) \<or> (\<exists>f. e = BarrierBegin i f \<and> barrierReady i (queue c))"
  by (cases e) (auto simp: split_beta split: if_splits dest: in_remove1)

lemma gone_fire:
  assumes "gone i c" and "fire e c = Some c'"
  shows "gone i c'"
proof -
  from assms have aw: "away i (queue c)" by (simp add: gone_def)
  then have a': "away i (queue c')" using assms(2) by (rule fire_queue_away)
  have "i \<notin> set (inStep c')"
  proof
    assume "i \<in> set (inStep c')"
    from inStep_fire [OF assms(2) this] assms(1)
    obtain now where e: "e = StepPop now" and ih: "i = taskId (hd (tasks (queue c)))"
      by (auto simp: gone_def)
    with assms(2) have "runnable now (queue c)" by (simp split: if_splits)
    then have "tasks (queue c) \<noteq> []" by (simp add: runnable_def)
    then have "taskId (hd (tasks (queue c))) \<in> taskId ` set (tasks (queue c))" by simp
    with aw ih show False by (simp add: away_def)
  qed
  moreover have "i \<notin> set (inBarrier c')"
  proof
    assume "i \<in> set (inBarrier c')"
    from inBarrier_fire [OF assms(2) this] assms(1)
    have "barrierReady i (queue c)" by (auto simp: gone_def)
    then have "i \<in> taskId ` set (tasks (queue c))"
      by (auto simp: barrierReady_def)
    with aw show False by (simp add: away_def)
  qed
  ultimately show ?thesis using a' by (simp add: gone_def)
qed

lemma gone_run:
  assumes "gone i c" and "run es c = Some c'"
  shows "gone i c'"
  using run_invariant [where P = "gone i", OF gone_fire assms] .

lemma size_inc_small: "n < m \<Longrightarrow> m < 2 ^ 64 \<Longrightarrow> size_inc n = n + 1"
  by (simp add: size_inc_def)

lemma size_inc_0: "size_inc 0 = 1"
  by (simp add: size_inc_def)

lemma size_dec_pos: "0 < n \<Longrightarrow> size_dec n = n - 1"
  by (simp add: size_dec_def)

lemma length_remove1_in: "x \<in> set xs \<Longrightarrow> length xs = Suc (length (remove1 x xs))"
  by (induction xs) auto

lemma counted_fire: "counted c \<Longrightarrow> fire e c = Some c' \<Longrightarrow> counted c'"
proof (cases e)
  case (StepPop now)
  assume a: "counted c" "fire e c = Some c'"
  with StepPop have "runnable now (queue c)" by (simp split: if_splits)
  then have "currentRunningTasks (queue c) < maxConcurrentTasks (queue c)"
    by (simp add: runnable_def)
  with a StepPop show ?thesis
    by (auto simp: counted_def members size_inc_small split: if_splits)
next
  case (BarrierBegin j f)
  assume a: "counted c" "fire e c = Some c'"
  with BarrierBegin have "barrierReady j (queue c)" by (simp split: if_splits)
  then have "currentRunningTasks (queue c) = 0" by (simp add: barrierReady_def)
  with a BarrierBegin show ?thesis
    by (auto simp: counted_def members size_inc_0 split: if_splits)
next
  case (BarrierEnd j)
  assume a: "counted c" "fire e c = Some c'"
  with BarrierEnd have "j \<in> set (inBarrier c)" by (simp split: if_splits)
  from length_remove1_in [OF this] a BarrierEnd show ?thesis
    by (auto simp: counted_def members size_dec_pos split: if_splits)
next
  case (StepDone j)
  assume a: "counted c" "fire e c = Some c'"
  with StepDone have "j \<in> set (inStep c)" by (simp split: if_splits)
  from length_remove1_in [OF this] a StepDone show ?thesis
    by (auto simp: counted_def members size_dec_pos split: if_splits)
qed (auto simp: counted_def members split_beta split: if_splits)

lemma counted_new: "counted newSystem"
  by (simp add: counted_def newSystem_def newTaskQueue_def)

lemma underCeiling_fire:
  assumes "counted c" and "underCeiling c" and "fire e c = Some c'"
    and "\<And>n. e = SetMaxConcurrentTasks n \<Longrightarrow> 1 \<le> n \<and> currentRunningTasks (queue c) \<le> n"
  shows "underCeiling c'"
proof (cases e)
  case (StepPop now)
  with assms(3) have "runnable now (queue c)" by (simp split: if_splits)
  then have "currentRunningTasks (queue c) < maxConcurrentTasks (queue c)"
    by (simp add: runnable_def)
  with assms StepPop show ?thesis
    by (auto simp: underCeiling_def counted_def members size_inc_small split: if_splits)
next
  case (BarrierBegin j f)
  with assms(3) have "barrierReady j (queue c)" by (simp split: if_splits)
  then have "currentRunningTasks (queue c) = 0" by (simp add: barrierReady_def)
  with assms BarrierBegin show ?thesis
    by (auto simp: underCeiling_def members size_inc_0 split: if_splits)
next
  case (BarrierEnd j)
  with assms(3) have "j \<in> set (inBarrier c)" by (simp split: if_splits)
  from length_remove1_in [OF this] assms BarrierEnd show ?thesis
    by (auto simp: underCeiling_def counted_def members size_dec_pos split: if_splits)
next
  case (StepDone j)
  with assms(3) have "j \<in> set (inStep c)" by (simp split: if_splits)
  from length_remove1_in [OF this] assms StepDone show ?thesis
    by (auto simp: underCeiling_def counted_def members size_dec_pos split: if_splits)
next
  case (SetMaxConcurrentTasks n)
  with assms show ?thesis
    by (auto simp: underCeiling_def members split: if_splits)
qed (use assms in \<open>auto simp: underCeiling_def members split_beta split: if_splits\<close>)

lemma underCeiling_run:
  "counted c \<Longrightarrow> underCeiling c \<Longrightarrow> ceilingKept es c \<Longrightarrow> run es c = Some c' \<Longrightarrow>
   underCeiling c'"
proof (induction es arbitrary: c)
  case Nil
  then show ?case by simp
next
  case (Cons e es)
  then obtain c1 where f: "fire e c = Some c1" and r: "run es c1 = Some c'"
    by (auto split: option.splits)
  have k: "\<And>n. e = SetMaxConcurrentTasks n \<Longrightarrow> 1 \<le> n \<and> currentRunningTasks (queue c) \<le> n"
    using Cons.prems(3) by auto
  have "underCeiling c1"
    using underCeiling_fire [OF Cons.prems(1,2) f k] by simp
  moreover have "counted c1"
    using counted_fire [OF Cons.prems(1) f] .
  moreover have "ceilingKept es c1"
    using Cons.prems(3) f by simp
  ultimately show ?case
    using Cons.IH r by blast
qed

lemma alternating_snoc:
  "alternating b (xs @ [x]) =
     (alternating b xs \<and>
      (case x of onQueueNonEmpty l \<Rightarrow> due b xs | onQueueEmpty l \<Rightarrow> \<not> due b xs
       | Invoked f \<Rightarrow> True))"
  by (induction b xs rule: alternating.induct) (auto split: effect.splits)

lemma due_snoc:
  "due b (xs @ [x]) =
     (case x of onQueueNonEmpty l \<Rightarrow> False | onQueueEmpty l \<Rightarrow> True | Invoked f \<Rightarrow> due b xs)"
  by (induction b xs rule: due.induct) (auto split: effect.splits)

lemma enqueue_trace:
  "trace (snd (enqueue f t q)) =
     (if disposed q \<or> \<not> emptyFlag q then trace q
      else (case listener q of None \<Rightarrow> trace q | Some l \<Rightarrow> trace q @ [onQueueNonEmpty l]))"
  by (simp add: enqueue_def split_beta Let_def callNonEmpty_def rest_insertTask
      split: option.splits)

lemma enqueue_emptyFlag:
  "emptyFlag (snd (enqueue f t q)) = (disposed q \<and> emptyFlag q)"
  by (simp add: enqueue_def split_beta Let_def callNonEmpty_members rest_insertTask)

lemma noticeEmpty_trace:
  "trace (noticeEmpty q) =
     (if emptyFlag q then trace q
      else (case listener q of None \<Rightarrow> trace q | Some l \<Rightarrow> trace q @ [onQueueEmpty l]))"
  by (simp add: noticeEmpty_def callEmpty_def split: option.splits)

lemma listened_fire:
  assumes "listened (queue c)" and "fire e c = Some c'" and "e \<noteq> SetListener None"
  shows "listened (queue c')"
  using assms
  by (cases e)
     (auto simp: listened_def members enqueue_trace enqueue_emptyFlag noticeEmpty_trace
        alternating_snoc due_snoc split_beta split: if_splits)

lemma keepsListener_Cons:
  "keepsListener (e # es) = (e \<noteq> SetListener None \<and> keepsListener es)"
proof (cases e)
  case (SetListener l)
  then show ?thesis by (cases l) auto
qed auto

lemma listened_run:
  "listened (queue c) \<Longrightarrow> keepsListener es \<Longrightarrow> run es c = Some c' \<Longrightarrow> listened (queue c')"
proof (induction es arbitrary: c)
  case Nil
  then show ?case by simp
next
  case (Cons e es)
  then obtain c1 where f: "fire e c = Some c1" and r: "run es c1 = Some c'"
    by (auto split: option.splits)
  from Cons.prems(2) have k: "e \<noteq> SetListener None" "keepsListener es"
    by (simp_all add: keepsListener_Cons)
  from listened_fire [OF Cons.prems(1) f k(1)] Cons.IH k(2) r show ?case by blast
qed

lemma unheard_fire:
  assumes "unheard (queue c)" and "fire e c = Some c'" and "\<forall>l. e \<noteq> SetListener (Some l)"
  shows "unheard (queue c')"
  using assms
  by (cases e)
     (auto simp: unheard_def members enqueue_trace noticeEmpty_trace
        alternating_snoc due_snoc split_beta split: if_splits)

lemma listenerFree_Cons:
  "listenerFree (e # es) = ((\<forall>l. e \<noteq> SetListener (Some l)) \<and> listenerFree es)"
proof (cases e)
  case (SetListener l)
  then show ?thesis by (cases l) auto
qed auto

lemma unheard_run:
  "unheard (queue c) \<Longrightarrow> listenerFree es \<Longrightarrow> run es c = Some c' \<Longrightarrow> unheard (queue c')"
proof (induction es arbitrary: c)
  case Nil
  then show ?case by simp
next
  case (Cons e es)
  then obtain c1 where f: "fire e c = Some c1" and r: "run es c1 = Some c'"
    by (auto split: option.splits)
  from Cons.prems(2) have k: "\<forall>l. e \<noteq> SetListener (Some l)" "listenerFree es"
    by (simp_all add: listenerFree_Cons)
  from unheard_fire [OF Cons.prems(1) f k(1)] Cons.IH k(2) r show ?case by blast
qed

lemma unheard_new: "unheard (queue newSystem)"
  by (simp add: unheard_def newSystem_def newTaskQueue_def)

lemma unheard_listened:
  "unheard q \<Longrightarrow> emptyFlag q \<Longrightarrow> listened (setListener (Some l) q)"
  by (simp add: unheard_def listened_def setListener_def)

lemma fire_onQueueNonEmpty:
  assumes "fire e c = Some c'" and "trace (queue c') = trace (queue c) @ [onQueueNonEmpty k]"
  shows "(\<exists>f t. e = Enqueue f t) \<and> emptyFlag (queue c) \<and> \<not> emptyFlag (queue c')"
  using assms
  by (cases e)
     (auto simp: members enqueue_trace enqueue_emptyFlag noticeEmpty_trace split_beta
        split: if_splits option.splits)

lemma fire_onQueueEmpty:
  assumes "fire e c = Some c'" and "trace (queue c') = trace (queue c) @ [onQueueEmpty k]"
  shows "e = StepIdle \<and> tasks (queue c) = [] \<and> \<not> emptyFlag (queue c) \<and> emptyFlag (queue c')"
  using assms
  by (cases e)
     (auto simp: members enqueue_trace enqueue_emptyFlag noticeEmpty_trace split_beta
        split: if_splits option.splits)

lemmas evals =
  enqueue_def insertTask_def emplaceUpperBound_def taskLess_def callNonEmpty_def callEmpty_def
  noticeEmpty_def runnable_def popFront_def called_def taskDone_def barrierReady_def
  barrierEnter_def barrierLeave_def lockFreeRemoveTask_def cancel_def dispose_def
  setMaxConcurrentTasks_def setListener_def newSystem_def newTaskQueue_def size_inc_def
  size_dec_def Let_def

section \<open>Facts about runNextTask and flush\<close>

lemma runNextTask_loop:
  "runNextTask maxTime now env q =
     (case nextTask_loop maxTime now env q of
        (h, n1, e1, q1) \<Rightarrow>
          if disposed q1 \<or> \<not> h then (Returned False, n1, e1, q1)
          else (case unlocked n1 e1 (called (func (hd (tasks q1))) (snd (popFront q1))) of
                  (n2, e2, q2) \<Rightarrow>
                    (case invoke (func (hd (tasks q1))) of
                       Some e \<Rightarrow> (Raised e, n2, e2, q2)
                     | None \<Rightarrow> (Returned True, n2, e2, taskDone q2))))"
  by (simp add: runNextTask_def nextTask_def popFront_def split: prod.splits)

lemma runNextTask_runnable:
  "runnable now q \<Longrightarrow>
   runNextTask maxTime now env q =
     (case unlocked now env (called (func (hd (tasks q))) (snd (popFront q))) of
        (n2, e2, q2) \<Rightarrow>
          (case invoke (func (hd (tasks q))) of
             Some e \<Rightarrow> (Raised e, n2, e2, q2)
           | None \<Rightarrow> (Returned True, n2, e2, taskDone q2)))"
  by (simp add: runNextTask_loop loop_runnable) (simp add: runnable_def)

lemma runNextTask_disposed:
  "disposed q \<Longrightarrow> runNextTask maxTime now env q = (Returned False, now, env, q)"
  by (simp add: runNextTask_loop loop_disposed)

lemma loop_timeout:
  assumes "\<not> disposed q" and "\<not> runnable now q" and "waitDeadline maxTime q = maxTime"
    and "fst (wait_until maxTime now env (idle q)) = timeout"
  shows "nextTask_loop maxTime now env q = (False, snd (wait_until maxTime now env (idle q)))"
proof -
  obtain r n1 e1 q1 where w: "wait_until maxTime now env (idle q) = (r, n1, e1, q1)"
    by (metis prod_cases4)
  with assms(4) have "r = timeout" by simp
  with assms(1-3) w show ?thesis by (simp add: loop_wait)
qed

lemma runNextTask_timeout:
  assumes "\<not> disposed q" and "\<not> runnable now q" and "waitDeadline maxTime q = maxTime"
    and "fst (wait_until maxTime now env (idle q)) = timeout"
  shows "runNextTask maxTime now env q =
           (Returned False, snd (wait_until maxTime now env (idle q)))"
  by (simp add: runNextTask_loop loop_timeout [OF assms] split: prod.splits)

lemma waitDeadline_now:
  "\<not> disposed q \<Longrightarrow> \<not> runnable now q \<Longrightarrow> maxTime \<le> now \<Longrightarrow> waitDeadline maxTime q = maxTime"
  by (auto simp: waitDeadline_def runnable_def)

lemma wait_until_expired: "deadline \<le> now \<Longrightarrow> fst (wait_until deadline now env q) = timeout"
  by (simp add: wait_until_def split: list.splits)

lemma runNextTask_expired:
  assumes "\<not> disposed q" and "\<not> runnable now q" and "maxTime \<le> now"
  shows "runNextTask maxTime now env q =
           (Returned False, snd (wait_until maxTime now env (idle q)))"
  using assms
  by (intro runNextTask_timeout waitDeadline_now wait_until_expired)

lemma idle_members:
  "tasks (idle q) = tasks q"
  "currentRunningTasks (idle q) = currentRunningTasks q"
  "maxConcurrentTasks (idle q) = maxConcurrentTasks q"
  "disposed (idle q) = disposed q"
  by (simp_all add: idle_def noticeEmpty_members)

lemma runnable_idle: "runnable now (idle q) = runnable now q"
  by (simp add: runnable_def idle_members)

lemma idle_idle: "idle (idle q) = idle q"
  by (simp add: idle_def noticeEmpty_def noticeEmpty_members callEmpty_members)

lemma loop_nil:
  "nextTask_loop maxTime now [] q =
     (if disposed q then (False, now, [], q)
      else if runnable now q then (True, now, [], q)
      else if tasks q \<noteq> [] \<and> currentRunningTasks q < maxConcurrentTasks q \<and>
              \<not> isBarrier (hd (tasks q)) \<and> executeTime (hd (tasks q)) < maxTime
        then (True, executeTime (hd (tasks q)), [], q)
      else (False, max now maxTime, [], idle q))"
proof (cases "disposed q")
  case True
  then show ?thesis by (simp add: loop_disposed)
next
  case nd: False
  show ?thesis
  proof (cases "runnable now q")
    case True
    with nd show ?thesis by (simp add: loop_runnable)
  next
    case nr: False
    show ?thesis
    proof (cases "tasks q \<noteq> [] \<and> currentRunningTasks q < maxConcurrentTasks q \<and>
              \<not> isBarrier (hd (tasks q)) \<and> executeTime (hd (tasks q)) < maxTime")
      case True
      with nd nr have fut: "now < executeTime (hd (tasks q))"
        by (auto simp: runnable_def)
      from True have wd: "waitDeadline maxTime q = executeTime (hd (tasks q))"
        by (auto simp: waitDeadline_def)
      from True have i: "idle q = q" by (simp add: idle_def)
      from True nd have r: "runnable (executeTime (hd (tasks q))) q"
        by (simp add: runnable_def)
      from True fut show ?thesis
        using nd nr
        by (simp add: loop_wait wd i wait_until_def loop_runnable [OF r] max_def)
    next
      case False
      with nd nr have wd: "waitDeadline maxTime q = maxTime"
        by (auto simp: waitDeadline_def runnable_def)
      from False nd nr show ?thesis
        by (simp add: loop_wait wd wait_until_def)
    qed
  qed
qed

lemma size_dec_inc: "n < 2 ^ 64 \<Longrightarrow> size_dec (size_inc n) = n"
  by (auto simp: size_dec_def size_inc_def mod_Suc)

lemma flush_loop_false:
  "runNextTask now now env q = (Returned False, r) \<Longrightarrow>
   flush_loop ranTasks now env q = (Returned ranTasks, r)"
  by (subst flush_loop.simps) (simp split: prod.splits)

lemma flush_loop_true:
  "runNextTask now now env q = (Returned True, now', env', q') \<Longrightarrow>
   flush_loop ranTasks now env q = flush_loop (ranTasks + 1) now' env' q'"
  by (subst flush_loop.simps) simp

lemma flush_loop_raised:
  "runNextTask now now env q = (Raised e, r) \<Longrightarrow>
   flush_loop ranTasks now env q = (Raised e, r)"
  by (subst flush_loop.simps) (simp split: prod.splits)

lemma flush_loop_stops:
  assumes "\<not> runnable now q"
  shows "flush_loop ranTasks now env q =
           (Returned ranTasks,
            if disposed q then (now, env, q) else snd (wait_until now now env (idle q)))"
proof (cases "disposed q")
  case True
  then show ?thesis
    by (simp add: flush_loop_false [OF runNextTask_disposed])
next
  case False
  from runNextTask_expired [OF False assms order_refl] False show ?thesis
    by (simp add: flush_loop_false)
qed

lemma same_tasks: "tasks q = ts \<Longrightarrow> q\<lparr>tasks := ts\<rparr> = q"
  by (cases q) auto

lemma flush_loop_nil:
  assumes "tasks q = ts" and "\<not> disposed q"
    and "currentRunningTasks q < maxConcurrentTasks q" and "maxConcurrentTasks q < 2 ^ 64"
    and "\<forall>t\<in>set (takeWhile (ready now) ts). invoke (func t) = None"
  shows "flush_loop ranTasks now [] q =
           (Returned (ranTasks + length (takeWhile (ready now) ts)), now, [],
            idle (q\<lparr>tasks := dropWhile (ready now) ts,
                    trace := trace q @ map (\<lambda>t. Invoked (func t)) (takeWhile (ready now) ts)\<rparr>))"
  using assms
proof (induction ts arbitrary: q ranTasks)
  case Nil
  then have nr: "\<not> runnable now q" by (simp add: runnable_def)
  from Nil show ?case
    by (simp add: flush_loop_stops [OF nr] wait_until_def same_tasks)
next
  case (Cons t ts)
  show ?case
  proof (cases "ready now t")
    case True
    with Cons.prems have r: "runnable now q"
      by (simp add: runnable_def ready_def)
    from True Cons.prems have inv: "invoke (func t) = None" by simp
    let ?q' = "taskDone (called (func t) (snd (popFront q)))"
    have step: "runNextTask now now [] q = (Returned True, now, [], ?q')"
      using Cons.prems(1) inv by (simp add: runNextTask_runnable [OF r] unlocked_def)
    have rn: "currentRunningTasks ?q' = currentRunningTasks q"
      using Cons.prems(3,4) by (simp add: taskDone_def called_def popFront_def size_dec_inc)
    have q': "tasks ?q' = ts" "\<not> disposed ?q'"
      "currentRunningTasks ?q' < maxConcurrentTasks ?q'" "maxConcurrentTasks ?q' < 2 ^ 64"
      using Cons.prems rn by (simp_all add: taskDone_def called_def popFront_def)
    have all: "\<forall>t\<in>set (takeWhile (ready now) ts). invoke (func t) = None"
      using Cons.prems(5) True by simp
    have eq: "?q'\<lparr>tasks := dropWhile (ready now) ts,
                  trace := trace ?q' @ map (\<lambda>t. Invoked (func t)) (takeWhile (ready now) ts)\<rparr> =
              q\<lparr>tasks := dropWhile (ready now) (t # ts),
                trace := trace q @ map (\<lambda>t. Invoked (func t)) (takeWhile (ready now) (t # ts))\<rparr>"
      using True Cons.prems(1,3,4)
      by (simp add: taskDone_def called_def popFront_def size_dec_inc)
    from Cons.IH [OF q' all, of "ranTasks + 1"] True show ?thesis
      by (simp add: flush_loop_true [OF step] eq)
  next
    case False
    with Cons.prems have nr: "\<not> runnable now q"
      by (auto simp: runnable_def ready_def)
    from False Cons.prems show ?thesis
      by (simp add: flush_loop_stops [OF nr] wait_until_def same_tasks)
  qed
qed

section \<open>Facts about barrier\<close>

lemma barrier_loop_empty:
  "tasks q = [] \<Longrightarrow> barrier_loop i f now env q = Some (Returned (), now, env, q)"
  by (simp add: barrier_loop.simps)


lemma barrier_loop_wait:
  "tasks q \<noteq> [] \<Longrightarrow> \<not> barrierReady i q \<Longrightarrow>
   barrier_loop i f now (w # env) q = barrier_loop i f (now + int (elapsed w)) env (others w q)"
  by (subst barrier_loop.simps) (auto simp: barrierReady_def)

lemma barrier_loop_blocked:
  "tasks q \<noteq> [] \<Longrightarrow> \<not> barrierReady i q \<Longrightarrow> barrier_loop i f now [] q = None"
  by (subst barrier_loop.simps) (auto simp: barrierReady_def)


lemma insertTask_nonempty: "tasks (snd (insertTask f t b q)) \<noteq> []"
  by (simp add: insertTask_def emplaceUpperBound_def Let_def)

lemma trace_insertTask: "trace (snd (insertTask f t b q)) = trace q"
  by (simp add: insertTask_def Let_def)



section \<open>Submission after disposal\<close>

text \<open>
  C5: on a disposed queue \<^verbatim>\<open>enqueue\<close> returns id 0 and \<^verbatim>\<open>isFirst\<close> false for every
  callable and execution time, and the queue is left as it was: the task sequence, the
  id counter, the two flags and the trace of listener calls are unchanged.
\<close>

theorem enqueue_disposed_rejected:
  "disposed q \<Longrightarrow>
     enqueue f t q = (\<lparr>enqueuedId = 0, isFirst = False\<rparr>, q) \<and>
     tasks (snd (enqueue f t q)) = tasks q \<and>
     taskIdCounter (snd (enqueue f t q)) = taskIdCounter q \<and>
     firstFlag (snd (enqueue f t q)) = firstFlag q \<and>
     emptyFlag (snd (enqueue f t q)) = emptyFlag q \<and>
     trace (snd (enqueue f t q)) = trace q"
  by (simp add: enqueue_def)

theorem enqueue_disposed_rejected_witness:
  "disposed (dispose newTaskQueue) \<and>
   enqueue (Some (Returning 1)) 5 (dispose newTaskQueue) =
     (\<lparr>enqueuedId = 0, isFirst = False\<rparr>, dispose newTaskQueue) \<and>
   tasks (snd (enqueue (Some (Returning 1)) 5 (dispose newTaskQueue))) = []"
  using enqueue_disposed_rejected [of "dispose newTaskQueue" "Some (Returning 1)" 5]
  by (simp add: dispose_def newTaskQueue_def)

section \<open>Barrier and disposal\<close>




text \<open>
  C7, as the code has it: when the queue is disposed while a thread waits in
  \<^verbatim>\<open>barrier\<close> (its placeholder is not at the head, or a task is running), \<^verbatim>\<open>dispose\<close>
  swaps the whole sequence out, the placeholder with it; the woken thread finds the
  sequence empty, leaves the loop and returns without calling the callable.
\<close>

theorem barrier_disposed_while_waiting:
  assumes "\<not> disposed q"
    and "\<not> barrierReady (fst (insertTask None now True q)) (snd (insertTask None now True q))"
  shows "barrier f now (Interval d dispose # env) q =
           Some (Returned (), now + int d, env, dispose (snd (insertTask None now True q))) \<and>
         tasks (dispose (snd (insertTask None now True q))) = [] \<and>
         trace (dispose (snd (insertTask None now True q))) = trace q"
proof -
  obtain i q1 where ins: "insertTask None now True q = (i, q1)"
    by (cases "insertTask None now True q")
  have ne: "tasks q1 \<noteq> []"
    using insertTask_nonempty [of None now True q] ins by simp
  have nd: "\<not> disposed q1"
    using assms(1) ins by (auto simp: insertTask_def Let_def)
  have nr: "\<not> barrierReady i q1"
    using assms(2) ins by simp
  have e: "tasks (dispose q1) = []"
    using nd by (simp add: dispose_def)
  have "barrier f now (Interval d dispose # env) q =
          barrier_loop i f (now + int d) env (dispose q1)"
    using barrier_loop_wait [OF ne nr] by (simp add: barrier_def ins)
  also have "\<dots> = Some (Returned (), now + int d, env, dispose q1)"
    using e by (rule barrier_loop_empty)
  finally show ?thesis
    using e ins trace_insertTask [of None now True q] by (simp add: dispose_def)
qed

theorem barrier_disposed_while_waiting_witness:
  "\<not> disposed (snd (enqueue (Some (Returning 1)) 0 newTaskQueue)) \<and>
   barrier (Some (Returning 2)) 0 [Interval 4 dispose]
       (snd (enqueue (Some (Returning 1)) 0 newTaskQueue)) =
     Some (Returned (), 4, [],
       \<lparr>disposed = True, taskIdCounter = 2, tasks = [], emptyFlag = False,
        firstFlag = False, currentRunningTasks = 0, maxConcurrentTasks = 1, listener = None,
        trace = []\<rparr>)"
  using barrier_disposed_while_waiting
    [of "snd (enqueue (Some (Returning 1)) 0 newTaskQueue)" 0 "Some (Returning 2)" 4 "[]"]
  by (simp add: enqueue_def insertTask_def emplaceUpperBound_def taskLess_def
      newTaskQueue_def callNonEmpty_def barrierReady_def dispose_def Let_def)

text \<open>
  C7 as the spec states it fails: one task is pending, a thread calls \<^verbatim>\<open>barrier\<close> and
  waits behind it, the queue is disposed during the wait. The call returns and the
  trace holds no call of the barrier callable.
\<close>

theorem barrier_disposed_while_waiting_counterexample:
  "barrier (Some (Returning 2)) 0 [Interval 0 dispose]
       (snd (enqueue (Some (Returning 1)) 0 newTaskQueue)) =
     Some (Returned (), 0, [],
       \<lparr>disposed = True, taskIdCounter = 2, tasks = [], emptyFlag = False,
        firstFlag = False, currentRunningTasks = 0, maxConcurrentTasks = 1, listener = None,
        trace = []\<rparr>)"
  by (simp add: barrier_def enqueue_def insertTask_def emplaceUpperBound_def taskLess_def
      newTaskQueue_def callNonEmpty_def barrier_loop.simps dispose_def Let_def)

section \<open>An exception in sync on the worker thread\<close>

text \<open>
  C9 fails on the code. With \<^verbatim>\<open>disableSyncCallsInCallingThread_\<close> set, \<^verbatim>\<open>sync\<close> of a
  callable that throws: the lambda has no \<^verbatim>\<open>try\<close>, so the exception leaves it before
  \<^verbatim>\<open>promise.set_value()\<close> and nothing ever calls \<^verbatim>\<open>set_exception\<close>. The exception leaves
  \<^verbatim>\<open>runNextTask\<close> on the worker (the running count stays at one, \<^verbatim>\<open>runningSync_\<close>
  stays set), and the caller's \<^verbatim>\<open>future.get()\<close> never returns.
\<close>

theorem sync_exception_not_forwarded:
  "sync_onWorker (Some (Throwing 1 (user_exception 7))) 0
       (setDisableSyncCallsInCallingThread True newThreadedDispatchQueue) =
     (None, Raised (user_exception 7),
      \<lparr>taskQueue =
         \<lparr>disposed = False, taskIdCounter = 1, tasks = [], emptyFlag = False,
          firstFlag = False, currentRunningTasks = 1, maxConcurrentTasks = 1,
          listener = None,
          trace = [Invoked (Some (SyncLambda (Some (Throwing 1 (user_exception 7)))))]\<rparr>,
       disableSyncCallsInCallingThread = True, runningSync = True,
       threadStarted = True\<rparr>)"
  by (simp add: sync_onWorker_def async_def handlerIteration_def runNextTask_def nextTask_def
      enqueue_def insertTask_def emplaceUpperBound_def newThreadedDispatchQueue_def
      newTaskQueue_def setDisableSyncCallsInCallingThread_def callNonEmpty_def
      loop_runnable runnable_def popFront_def called_def unlocked_def callableWrites_def
      syncLambda_def size_inc_def Let_def)

section \<open>The order of the task sequence\<close>

text \<open>
  C1: in every state a run of events reaches, the pending sequence is sorted by
  (execution time, id). \<^verbatim>\<open>insertTask\<close> gives the new task an id above every id in the
  sequence, so the upper bound puts it behind all entries whose time is not later than
  its own and before all later ones: submissions for the same time stay in the order
  they came. The sequence is sorted again after the insertion, and after every event
  (enqueue, cancel, dispose, the steps of barrier and of runNextTask).
\<close>

theorem tasks_sorted_fifo:
  assumes "run es newSystem = Some c"
  shows "sortedTasks (tasks (queue c)) \<and>
         (\<forall>t\<in>set (tasks (queue c)). taskId t < fst (insertTask f w b (queue c))) \<and>
         tasks (snd (insertTask f w b (queue c))) =
           filter (\<lambda>x. executeTime x \<le> w) (tasks (queue c)) @
           \<lparr>taskId = taskIdCounter (queue c) + 1, func = f, executeTime = w, isBarrier = b\<rparr> #
           filter (\<lambda>x. w < executeTime x) (tasks (queue c)) \<and>
         sortedTasks (tasks (snd (insertTask f w b (queue c)))) \<and>
         (\<forall>e c'. fire e c = Some c' \<longrightarrow> sortedTasks (tasks (queue c')))"
proof -
  let ?q = "queue c"
  let ?t = "\<lparr>taskId = taskIdCounter ?q + 1, func = f, executeTime = w, isBarrier = b\<rparr>"
  have o: "ordered c" using assms by (rule ordered_run)
  then have wo: "wellOrdered (tasks ?q) (taskIdCounter ?q)" by (simp add: ordered_def)
  then have s: "sortedTasks (tasks ?q)" by (simp add: wellOrdered_def)
  have lt: "\<forall>t\<in>set (tasks ?q). taskId t < taskId ?t"
    using wo by (auto simp: wellOrdered_def)
  then have ids: "\<forall>t\<in>set (tasks ?q). taskId t < fst (insertTask f w b ?q)"
    by (simp add: fst_insertTask)
  have fifo: "tasks (snd (insertTask f w b ?q)) =
           filter (\<lambda>x. executeTime x \<le> w) (tasks ?q) @ ?t #
           filter (\<lambda>x. w < executeTime x) (tasks ?q)"
    using emplaceUpperBound_fifo [OF s lt] by (simp add: tasks_insertTask)
  have s': "sortedTasks (tasks (snd (insertTask f w b ?q)))"
    using s by (simp add: tasks_insertTask sortedTasks_emplaceUpperBound)
  have pres: "\<forall>e c'. fire e c = Some c' \<longrightarrow> sortedTasks (tasks (queue c'))"
  proof (intro allI impI)
    fix e c'
    assume "fire e c = Some c'"
    with o have "ordered c'" by (rule ordered_fire)
    then show "sortedTasks (tasks (queue c'))"
      by (simp add: ordered_def wellOrdered_def)
  qed
  show ?thesis
    by (intro conjI) (rule s ids fifo s' pres)+
qed

theorem tasks_sorted_fifo_witness:
  "run [Enqueue (Some (Returning 1)) 5, Enqueue (Some (Returning 2)) 3,
        Enqueue (Some (Returning 3)) 5] newSystem =
     Some \<lparr>queue =
       \<lparr>disposed = False, taskIdCounter = 3,
        tasks =
          [\<lparr>taskId = 2, func = Some (Returning 2), executeTime = 3, isBarrier = False\<rparr>,
           \<lparr>taskId = 1, func = Some (Returning 1), executeTime = 5, isBarrier = False\<rparr>,
           \<lparr>taskId = 3, func = Some (Returning 3), executeTime = 5, isBarrier = False\<rparr>],
        emptyFlag = False, firstFlag = False, currentRunningTasks = 0,
        maxConcurrentTasks = 1, listener = None, trace = []\<rparr>,
       waiting = [], inBarrier = [], inStep = []\<rparr> \<and>
   sortedTasks
     [\<lparr>taskId = 2, func = Some (Returning 2), executeTime = 3, isBarrier = False\<rparr>,
      \<lparr>taskId = 1, func = Some (Returning 1), executeTime = 5, isBarrier = False\<rparr>,
      \<lparr>taskId = 3, func = Some (Returning 3), executeTime = 5, isBarrier = False\<rparr>] \<and>
   tasks (snd (insertTask (Some (Returning 4)) 5 False
     \<lparr>disposed = False, taskIdCounter = 3,
        tasks =
          [\<lparr>taskId = 2, func = Some (Returning 2), executeTime = 3, isBarrier = False\<rparr>,
           \<lparr>taskId = 1, func = Some (Returning 1), executeTime = 5, isBarrier = False\<rparr>,
           \<lparr>taskId = 3, func = Some (Returning 3), executeTime = 5, isBarrier = False\<rparr>],
        emptyFlag = False, firstFlag = False, currentRunningTasks = 0,
        maxConcurrentTasks = 1, listener = None, trace = []\<rparr>)) =
     [\<lparr>taskId = 2, func = Some (Returning 2), executeTime = 3, isBarrier = False\<rparr>,
      \<lparr>taskId = 1, func = Some (Returning 1), executeTime = 5, isBarrier = False\<rparr>,
      \<lparr>taskId = 3, func = Some (Returning 3), executeTime = 5, isBarrier = False\<rparr>,
      \<lparr>taskId = 4, func = Some (Returning 4), executeTime = 5, isBarrier = False\<rparr>]"
proof -
  let ?c = "\<lparr>queue =
       \<lparr>disposed = False, taskIdCounter = 3,
        tasks =
          [\<lparr>taskId = 2, func = Some (Returning 2), executeTime = 3, isBarrier = False\<rparr>,
           \<lparr>taskId = 1, func = Some (Returning 1), executeTime = 5, isBarrier = False\<rparr>,
           \<lparr>taskId = 3, func = Some (Returning 3), executeTime = 5, isBarrier = False\<rparr>],
        emptyFlag = False, firstFlag = False, currentRunningTasks = 0,
        maxConcurrentTasks = 1, listener = None, trace = []\<rparr>,
       waiting = [], inBarrier = [], inStep = []\<rparr>"
  have r: "run [Enqueue (Some (Returning 1)) 5, Enqueue (Some (Returning 2)) 3,
        Enqueue (Some (Returning 3)) 5] newSystem = Some ?c"
    by (simp add: evals)
  from tasks_sorted_fifo [OF r, of "Some (Returning 4)" 5 False] r show ?thesis
    by simp
qed

section \<open>The running count and the ceiling\<close>

text \<open>
  C3, as the code has it: in a run whose calls \<^verbatim>\<open>setMaxConcurrentTasks(n)\<close> all ask
  for a ceiling \<open>n\<close> of at least one that is not under the running count of the moment,
  the running count never exceeds the ceiling. A step pops only under the ceiling and
  then adds one. (\<^verbatim>\<open>setMaxConcurrentTasks\<close> itself never looks at the running count, and
  \<^verbatim>\<open>barrier\<close> never looks at the ceiling.)
\<close>

theorem running_under_ceiling:
  assumes "run es newSystem = Some c" and "ceilingKept es newSystem"
  shows "currentRunningTasks (queue c) \<le> maxConcurrentTasks (queue c) \<and>
         (\<forall>now c'. fire (StepPop now) c = Some c' \<longrightarrow>
            currentRunningTasks (queue c) < maxConcurrentTasks (queue c) \<and>
            currentRunningTasks (queue c') = currentRunningTasks (queue c) + 1)"
proof -
  have u0: "underCeiling newSystem"
    by (simp add: underCeiling_def newSystem_def newTaskQueue_def)
  have "underCeiling c"
    using underCeiling_run [OF counted_new u0 assms(2) assms(1)] .
  then have a: "currentRunningTasks (queue c) \<le> maxConcurrentTasks (queue c)"
    by (simp add: underCeiling_def)
  have cn: "counted c"
    using run_invariant [where P = counted, OF counted_fire counted_new assms(1)] .
  have b: "\<forall>now c'. fire (StepPop now) c = Some c' \<longrightarrow>
            currentRunningTasks (queue c) < maxConcurrentTasks (queue c) \<and>
            currentRunningTasks (queue c') = currentRunningTasks (queue c) + 1"
  proof (intro allI impI)
    fix now c'
    assume f: "fire (StepPop now) c = Some c'"
    then have "runnable now (queue c)" by (simp split: if_splits)
    then have lt: "currentRunningTasks (queue c) < maxConcurrentTasks (queue c)"
      by (simp add: runnable_def)
    moreover have "size_inc (currentRunningTasks (queue c)) = currentRunningTasks (queue c) + 1"
      using lt cn by (simp add: size_inc_small counted_def)
    ultimately show "currentRunningTasks (queue c) < maxConcurrentTasks (queue c) \<and>
            currentRunningTasks (queue c') = currentRunningTasks (queue c) + 1"
      using f by (auto simp: members split: if_splits)
  qed
  show ?thesis
    by (intro conjI) (rule a b)+
qed

theorem running_under_ceiling_witness:
  "ceilingKept [SetMaxConcurrentTasks 2, Enqueue (Some (Returning 1)) 0,
       Enqueue (Some (Returning 2)) 0, StepPop 0, StepPop 0, StepDone 2,
       SetMaxConcurrentTasks 1] newSystem \<and>
   run [SetMaxConcurrentTasks 2, Enqueue (Some (Returning 1)) 0,
       Enqueue (Some (Returning 2)) 0, StepPop 0, StepPop 0, StepDone 2,
       SetMaxConcurrentTasks 1] newSystem =
     Some \<lparr>queue =
       \<lparr>disposed = False, taskIdCounter = 2, tasks = [], emptyFlag = False,
        firstFlag = False, currentRunningTasks = 1, maxConcurrentTasks = 1,
        listener = None,
        trace = [Invoked (Some (Returning 1)), Invoked (Some (Returning 2))]\<rparr>,
       waiting = [], inBarrier = [], inStep = [1]\<rparr> \<and>
   currentRunningTasks (queue (the (run [SetMaxConcurrentTasks 2,
       Enqueue (Some (Returning 1)) 0, Enqueue (Some (Returning 2)) 0, StepPop 0, StepPop 0,
       StepDone 2, SetMaxConcurrentTasks 1] newSystem))) \<le>
   maxConcurrentTasks (queue (the (run [SetMaxConcurrentTasks 2,
       Enqueue (Some (Returning 1)) 0, Enqueue (Some (Returning 2)) 0, StepPop 0, StepPop 0,
       StepDone 2, SetMaxConcurrentTasks 1] newSystem)))"
proof -
  let ?es = "[SetMaxConcurrentTasks 2, Enqueue (Some (Returning 1)) 0,
       Enqueue (Some (Returning 2)) 0, StepPop 0, StepPop 0, StepDone 2,
       SetMaxConcurrentTasks 1]"
  let ?c = "\<lparr>queue =
       \<lparr>disposed = False, taskIdCounter = 2, tasks = [], emptyFlag = False,
        firstFlag = False, currentRunningTasks = 1, maxConcurrentTasks = 1,
        listener = None,
        trace = [Invoked (Some (Returning 1)), Invoked (Some (Returning 2))]\<rparr>,
       waiting = [], inBarrier = [], inStep = [1]\<rparr>"
  have r: "run ?es newSystem = Some ?c"
    by (simp add: evals)
  have k: "ceilingKept ?es newSystem"
    by (simp add: evals)
  from running_under_ceiling [OF r k] r k show ?thesis
    by simp
qed

text \<open>
  C3 as the spec states it fails: with a ceiling of two, two tasks are popped and
  run; \<^verbatim>\<open>setMaxConcurrentTasks(1)\<close> then leaves two running tasks over a ceiling of one.
\<close>

theorem running_under_ceiling_counterexample:
  "run [SetMaxConcurrentTasks 2, Enqueue (Some (Returning 1)) 0,
       Enqueue (Some (Returning 2)) 0, StepPop 0, StepPop 0,
       SetMaxConcurrentTasks 1] newSystem =
     Some \<lparr>queue =
       \<lparr>disposed = False, taskIdCounter = 2, tasks = [], emptyFlag = False,
        firstFlag = False, currentRunningTasks = 2, maxConcurrentTasks = 1,
        listener = None,
        trace = [Invoked (Some (Returning 1)), Invoked (Some (Returning 2))]\<rparr>,
       waiting = [], inBarrier = [], inStep = [2, 1]\<rparr> \<and>
   \<not> currentRunningTasks (queue (the (run [SetMaxConcurrentTasks 2,
       Enqueue (Some (Returning 1)) 0, Enqueue (Some (Returning 2)) 0, StepPop 0, StepPop 0,
       SetMaxConcurrentTasks 1] newSystem))) \<le>
     maxConcurrentTasks (queue (the (run [SetMaxConcurrentTasks 2,
       Enqueue (Some (Returning 1)) 0, Enqueue (Some (Returning 2)) 0, StepPop 0, StepPop 0,
       SetMaxConcurrentTasks 1] newSystem)))"
  by (simp add: evals)

section \<open>Cancellation\<close>

text \<open>
  C4: in a state that a run reaches, \<^verbatim>\<open>cancel(i)\<close> of a pending task (its id is in the
  sequence and no thread runs it as a barrier) erases exactly the entry with that id,
  and in no state after the cancellation is the id popped by a step, run as a barrier
  or back in the sequence: its callable is never called. \<^verbatim>\<open>cancel\<close> of an id that is not
  in the sequence (unknown, running or completed) leaves the queue as it is, and
  cancelling twice is cancelling once.
\<close>

theorem cancel_pending:
  assumes "run es newSystem = Some c"
  shows "(i \<in> taskId ` set (tasks (queue c)) \<and> i \<notin> set (inBarrier c) \<longrightarrow>
           tasks (cancel i (queue c)) = filter (\<lambda>t. taskId t \<noteq> i) (tasks (queue c)) \<and>
           (\<forall>es' c'. run (Cancel i # es') c = Some c' \<longrightarrow>
              i \<notin> set (inStep c') \<and> i \<notin> set (inBarrier c') \<and>
              i \<notin> taskId ` set (tasks (queue c')))) \<and>
         (i \<notin> taskId ` set (tasks (queue c)) \<longrightarrow> cancel i (queue c) = queue c) \<and>
         cancel i (cancel i (queue c)) = cancel i (queue c)"
proof -
  let ?q = "queue c"
  from apart_run [OF assms] have o: "ordered c" and sa: "stepsAway c" by simp_all
  from o have wo: "wellOrdered (tasks ?q) (taskIdCounter ?q)" by (simp add: ordered_def)
  then have d: "distinct (map taskId (tasks ?q))" by (simp add: wellOrdered_def)
  have t: "tasks (cancel i ?q) = filter (\<lambda>t. taskId t \<noteq> i) (tasks ?q)"
    using eraseTask_distinct [OF d] by (simp add: cancel_members)
  have absent: "cancel i q = q" if "i \<notin> taskId ` set (tasks q)" for q
    using eraseTask_absent [OF that] by (simp add: cancel_def lockFreeRemoveTask_def)
  have ni: "i \<notin> taskId ` set (tasks (cancel i ?q))"
    by (auto simp: t)
  then have idem: "cancel i (cancel i ?q) = cancel i ?q"
    by (rule absent)
  have pend: "tasks (cancel i ?q) = filter (\<lambda>t. taskId t \<noteq> i) (tasks ?q) \<and>
           (\<forall>es' c'. run (Cancel i # es') c = Some c' \<longrightarrow>
              i \<notin> set (inStep c') \<and> i \<notin> set (inBarrier c') \<and>
              i \<notin> taskId ` set (tasks (queue c')))"
    if p: "i \<in> taskId ` set (tasks ?q) \<and> i \<notin> set (inBarrier c)"
  proof -
    from p wo have le: "i \<le> taskIdCounter ?q" by (auto simp: wellOrdered_def)
    have ns: "i \<notin> set (inStep c)"
    proof
      assume "i \<in> set (inStep c)"
      with sa have "away i ?q" by (simp add: stepsAway_def)
      with p show False by (simp add: away_def)
    qed
    have "away i (cancel i ?q)"
      using le ni by (simp add: away_def cancel_members(2))
    then have g: "gone i (c\<lparr>queue := cancel i ?q\<rparr>)"
      using ns p by (simp add: gone_def)
    have "\<forall>es' c'. run (Cancel i # es') c = Some c' \<longrightarrow>
              i \<notin> set (inStep c') \<and> i \<notin> set (inBarrier c') \<and>
              i \<notin> taskId ` set (tasks (queue c'))"
    proof (intro allI impI)
      fix es' c'
      assume "run (Cancel i # es') c = Some c'"
      then have "run es' (c\<lparr>queue := cancel i ?q\<rparr>) = Some c'" by simp
      from gone_run [OF g this]
      show "i \<notin> set (inStep c') \<and> i \<notin> set (inBarrier c') \<and>
              i \<notin> taskId ` set (tasks (queue c'))"
        by (simp add: gone_def away_def)
    qed
    with t show ?thesis by simp
  qed
  show ?thesis
    using pend absent [of ?q] idem by blast
qed

theorem cancel_pending_witness:
  "run [Enqueue (Some (Returning 1)) 5, Enqueue (Some (Returning 2)) 3,
        Enqueue (Some (Returning 3)) 5] newSystem =
     Some \<lparr>queue =
       \<lparr>disposed = False, taskIdCounter = 3,
        tasks =
          [\<lparr>taskId = 2, func = Some (Returning 2), executeTime = 3, isBarrier = False\<rparr>,
           \<lparr>taskId = 1, func = Some (Returning 1), executeTime = 5, isBarrier = False\<rparr>,
           \<lparr>taskId = 3, func = Some (Returning 3), executeTime = 5, isBarrier = False\<rparr>],
        emptyFlag = False, firstFlag = False, currentRunningTasks = 0,
        maxConcurrentTasks = 1, listener = None, trace = []\<rparr>,
       waiting = [], inBarrier = [], inStep = []\<rparr> \<and>
   tasks (cancel 2
     \<lparr>disposed = False, taskIdCounter = 3,
        tasks =
          [\<lparr>taskId = 2, func = Some (Returning 2), executeTime = 3, isBarrier = False\<rparr>,
           \<lparr>taskId = 1, func = Some (Returning 1), executeTime = 5, isBarrier = False\<rparr>,
           \<lparr>taskId = 3, func = Some (Returning 3), executeTime = 5, isBarrier = False\<rparr>],
        emptyFlag = False, firstFlag = False, currentRunningTasks = 0,
        maxConcurrentTasks = 1, listener = None, trace = []\<rparr>) =
     [\<lparr>taskId = 1, func = Some (Returning 1), executeTime = 5, isBarrier = False\<rparr>,
      \<lparr>taskId = 3, func = Some (Returning 3), executeTime = 5, isBarrier = False\<rparr>] \<and>
   run [Cancel 2, StepPop 9]
     \<lparr>queue =
       \<lparr>disposed = False, taskIdCounter = 3,
        tasks =
          [\<lparr>taskId = 2, func = Some (Returning 2), executeTime = 3, isBarrier = False\<rparr>,
           \<lparr>taskId = 1, func = Some (Returning 1), executeTime = 5, isBarrier = False\<rparr>,
           \<lparr>taskId = 3, func = Some (Returning 3), executeTime = 5, isBarrier = False\<rparr>],
        emptyFlag = False, firstFlag = False, currentRunningTasks = 0,
        maxConcurrentTasks = 1, listener = None, trace = []\<rparr>,
       waiting = [], inBarrier = [], inStep = []\<rparr> =
     Some \<lparr>queue =
       \<lparr>disposed = False, taskIdCounter = 3,
        tasks =
          [\<lparr>taskId = 3, func = Some (Returning 3), executeTime = 5, isBarrier = False\<rparr>],
        emptyFlag = False, firstFlag = False, currentRunningTasks = 1,
        maxConcurrentTasks = 1, listener = None, trace = [Invoked (Some (Returning 1))]\<rparr>,
       waiting = [], inBarrier = [], inStep = [1]\<rparr> \<and>
   2 \<notin> set (inStep (the (run [Cancel 2, StepPop 9]
     \<lparr>queue =
       \<lparr>disposed = False, taskIdCounter = 3,
        tasks =
          [\<lparr>taskId = 2, func = Some (Returning 2), executeTime = 3, isBarrier = False\<rparr>,
           \<lparr>taskId = 1, func = Some (Returning 1), executeTime = 5, isBarrier = False\<rparr>,
           \<lparr>taskId = 3, func = Some (Returning 3), executeTime = 5, isBarrier = False\<rparr>],
        emptyFlag = False, firstFlag = False, currentRunningTasks = 0,
        maxConcurrentTasks = 1, listener = None, trace = []\<rparr>,
       waiting = [], inBarrier = [], inStep = []\<rparr>)))"
proof -
  let ?c = "\<lparr>queue =
       \<lparr>disposed = False, taskIdCounter = 3,
        tasks =
          [\<lparr>taskId = 2, func = Some (Returning 2), executeTime = 3, isBarrier = False\<rparr>,
           \<lparr>taskId = 1, func = Some (Returning 1), executeTime = 5, isBarrier = False\<rparr>,
           \<lparr>taskId = 3, func = Some (Returning 3), executeTime = 5, isBarrier = False\<rparr>],
        emptyFlag = False, firstFlag = False, currentRunningTasks = 0,
        maxConcurrentTasks = 1, listener = None, trace = []\<rparr>,
       waiting = [], inBarrier = [], inStep = []\<rparr>"
  have r: "run [Enqueue (Some (Returning 1)) 5, Enqueue (Some (Returning 2)) 3,
        Enqueue (Some (Returning 3)) 5] newSystem = Some ?c"
    by (simp add: evals)
  have r2: "run [Cancel 2, StepPop 9] ?c =
     Some \<lparr>queue =
       \<lparr>disposed = False, taskIdCounter = 3,
        tasks =
          [\<lparr>taskId = 3, func = Some (Returning 3), executeTime = 5, isBarrier = False\<rparr>],
        emptyFlag = False, firstFlag = False, currentRunningTasks = 1,
        maxConcurrentTasks = 1, listener = None, trace = [Invoked (Some (Returning 1))]\<rparr>,
       waiting = [], inBarrier = [], inStep = [1]\<rparr>"
    by (simp add: evals)
  from cancel_pending [OF r, of 2] r r2 show ?thesis
    by simp
qed

section \<open>Listener callbacks\<close>

text \<open>
  C6, as the code has it: when the first listener is set while the empty flag is still
  set (no listener was set before, whatever else happened) and a listener stays set
  from then on, the callbacks alternate, \<^verbatim>\<open>onQueueNonEmpty\<close> first.
  In every state, an event that adds \<^verbatim>\<open>onQueueNonEmpty\<close> to the trace is an enqueue that
  found the empty flag set and cleared it; an event that adds \<^verbatim>\<open>onQueueEmpty\<close> is the
  empty branch of \<^verbatim>\<open>nextTask\<close>, which found the sequence empty and the flag clear and
  set it; \<^verbatim>\<open>cancel\<close> adds nothing to the trace, whatever it removes.
\<close>

theorem listener_calls_alternate:
  assumes "run es0 newSystem = Some c0" and "listenerFree es0" and "emptyFlag (queue c0)"
    and "run (SetListener (Some l) # es) c0 = Some c" and "keepsListener es"
  shows "alternating True (trace (queue c)) \<and>
         (\<forall>e c' k. fire e c = Some c' \<and>
              trace (queue c') = trace (queue c) @ [onQueueNonEmpty k] \<longrightarrow>
            (\<exists>f t. e = Enqueue f t) \<and> emptyFlag (queue c) \<and> \<not> emptyFlag (queue c')) \<and>
         (\<forall>e c' k. fire e c = Some c' \<and>
              trace (queue c') = trace (queue c) @ [onQueueEmpty k] \<longrightarrow>
            e = StepIdle \<and> tasks (queue c) = [] \<and> \<not> emptyFlag (queue c) \<and>
            emptyFlag (queue c')) \<and>
         (\<forall>i. trace (cancel i (queue c)) = trace (queue c))"
proof -
  let ?c1 = "c0\<lparr>queue := setListener (Some l) (queue c0)\<rparr>"
  have u: "unheard (queue c0)"
    using unheard_run [OF unheard_new assms(2,1)] .
  have l0: "listened (queue ?c1)"
    using unheard_listened [OF u assms(3)] by simp
  from assms(4) have "run es ?c1 = Some c" by simp
  from listened_run [OF l0 assms(5) this] have a: "alternating True (trace (queue c))"
    by (simp add: listened_def)
  have b: "\<forall>e c' k. fire e c = Some c' \<and>
              trace (queue c') = trace (queue c) @ [onQueueNonEmpty k] \<longrightarrow>
            (\<exists>f t. e = Enqueue f t) \<and> emptyFlag (queue c) \<and> \<not> emptyFlag (queue c')"
    using fire_onQueueNonEmpty by blast
  have d: "\<forall>e c' k. fire e c = Some c' \<and>
              trace (queue c') = trace (queue c) @ [onQueueEmpty k] \<longrightarrow>
            e = StepIdle \<and> tasks (queue c) = [] \<and> \<not> emptyFlag (queue c) \<and>
            emptyFlag (queue c')"
    using fire_onQueueEmpty by blast
  have e: "\<forall>i. trace (cancel i (queue c)) = trace (queue c)"
    by (simp add: cancel_members)
  show ?thesis
    by (intro conjI) (rule a b d e)+
qed

theorem listener_calls_alternate_witness:
  "listenerFree [SetMaxConcurrentTasks 4, StepIdle, Enqueue (Some (Returning 1)) 0, StepPop 0,
       StepDone 1, StepIdle] \<and>
   run [SetMaxConcurrentTasks 4, StepIdle, Enqueue (Some (Returning 1)) 0, StepPop 0,
       StepDone 1, StepIdle] newSystem =
     Some \<lparr>queue =
       \<lparr>disposed = False, taskIdCounter = 1, tasks = [], emptyFlag = True,
        firstFlag = False, currentRunningTasks = 0, maxConcurrentTasks = 4, listener = None,
        trace = [Invoked (Some (Returning 1))]\<rparr>,
       waiting = [], inBarrier = [], inStep = []\<rparr> \<and>
   keepsListener [Enqueue (Some (Returning 2)) 3, StepPop 3, StepDone 2, StepIdle,
       Enqueue (Some (Returning 3)) 4] \<and>
   run [SetListener (Some 7), Enqueue (Some (Returning 2)) 3, StepPop 3, StepDone 2, StepIdle,
       Enqueue (Some (Returning 3)) 4]
     \<lparr>queue =
       \<lparr>disposed = False, taskIdCounter = 1, tasks = [], emptyFlag = True,
        firstFlag = False, currentRunningTasks = 0, maxConcurrentTasks = 4, listener = None,
        trace = [Invoked (Some (Returning 1))]\<rparr>,
       waiting = [], inBarrier = [], inStep = []\<rparr> =
     Some \<lparr>queue =
       \<lparr>disposed = False, taskIdCounter = 3,
        tasks =
          [\<lparr>taskId = 3, func = Some (Returning 3), executeTime = 4, isBarrier = False\<rparr>],
        emptyFlag = False, firstFlag = False, currentRunningTasks = 0,
        maxConcurrentTasks = 4, listener = Some 7,
        trace =
          [Invoked (Some (Returning 1)), onQueueNonEmpty 7, Invoked (Some (Returning 2)),
           onQueueEmpty 7, onQueueNonEmpty 7]\<rparr>,
       waiting = [], inBarrier = [], inStep = []\<rparr> \<and>
   alternating True
     [Invoked (Some (Returning 1)), onQueueNonEmpty 7, Invoked (Some (Returning 2)),
      onQueueEmpty 7, onQueueNonEmpty 7]"
proof -
  let ?start = "\<lparr>queue =
       \<lparr>disposed = False, taskIdCounter = 1, tasks = [], emptyFlag = True,
        firstFlag = False, currentRunningTasks = 0, maxConcurrentTasks = 4, listener = None,
        trace = [Invoked (Some (Returning 1))]\<rparr>,
       waiting = [], inBarrier = [], inStep = []\<rparr>"
  let ?final = "\<lparr>queue =
       \<lparr>disposed = False, taskIdCounter = 3,
        tasks =
          [\<lparr>taskId = 3, func = Some (Returning 3), executeTime = 4, isBarrier = False\<rparr>],
        emptyFlag = False, firstFlag = False, currentRunningTasks = 0,
        maxConcurrentTasks = 4, listener = Some 7,
        trace =
          [Invoked (Some (Returning 1)), onQueueNonEmpty 7, Invoked (Some (Returning 2)),
           onQueueEmpty 7, onQueueNonEmpty 7]\<rparr>,
       waiting = [], inBarrier = [], inStep = []\<rparr>"
  have f: "listenerFree [SetMaxConcurrentTasks 4, StepIdle, Enqueue (Some (Returning 1)) 0,
       StepPop 0, StepDone 1, StepIdle]"
    by simp
  have r0: "run [SetMaxConcurrentTasks 4, StepIdle, Enqueue (Some (Returning 1)) 0, StepPop 0,
       StepDone 1, StepIdle] newSystem = Some ?start"
    by (simp add: evals)
  have m: "emptyFlag (queue ?start)"
    by simp
  have k: "keepsListener [Enqueue (Some (Returning 2)) 3, StepPop 3, StepDone 2, StepIdle,
       Enqueue (Some (Returning 3)) 4]"
    by simp
  have r: "run (SetListener (Some 7) # [Enqueue (Some (Returning 2)) 3, StepPop 3, StepDone 2,
       StepIdle, Enqueue (Some (Returning 3)) 4]) ?start = Some ?final"
    by (simp add: evals)
  from listener_calls_alternate [OF r0 f m r k] r0 f r k show ?thesis
    by simp
qed

text \<open>
  C6 as the spec states it fails: the callbacks are guarded by \<^verbatim>\<open>listener_ != nullptr\<close>.
  A task is enqueued before the listener is set, so the edge to non-empty goes unheard;
  after the task has run, the first callback the listener gets is \<^verbatim>\<open>onQueueEmpty\<close>.
\<close>

theorem listener_calls_alternate_counterexample:
  "run [Enqueue (Some (Returning 1)) 0, SetListener (Some 7), StepPop 0, StepDone 1,
       StepIdle] newSystem =
     Some \<lparr>queue =
       \<lparr>disposed = False, taskIdCounter = 1, tasks = [], emptyFlag = True,
        firstFlag = False, currentRunningTasks = 0, maxConcurrentTasks = 1,
        listener = Some 7,
        trace = [Invoked (Some (Returning 1)), onQueueEmpty 7]\<rparr>,
       waiting = [], inBarrier = [], inStep = []\<rparr> \<and>
   \<not> alternating True (trace (queue (the (run [Enqueue (Some (Returning 1)) 0,
       SetListener (Some 7), StepPop 0, StepDone 1, StepIdle] newSystem))))"
  by (simp add: evals)

section \<open>What runNextTask returns\<close>

text \<open>
  C2: \<^verbatim>\<open>runNextTask(maxTime)\<close> returns true exactly when its loop found a task, took it
  out and called its callable (and the callable returned; what it throws leaves
  \<^verbatim>\<open>runNextTask\<close>), and false exactly when the loop found none, and then the queue is
  the one the loop left. On a disposed queue it returns false and changes nothing.
  When no task is runnable and the wait for \<^verbatim>\<open>maxTime\<close> times out, it returns false
  and the queue is what the wait left of it. The task taken is the head of the sequence
  under the lock, it is no barrier, its time is not after the clock, the queue is not
  disposed and the running count is under the ceiling. With no other thread acting, the
  sequence and the running count the loop leaves are the ones it found, and a task is
  found exactly when the head is runnable by the deadline.
\<close>

theorem runNextTask_outcome:
  assumes "nextTask_loop maxTime now env q = (h, n1, e1, q1)"
  shows "(disposed q \<longrightarrow> runNextTask maxTime now env q = (Returned False, now, env, q)) \<and>
         (\<not> disposed q \<and> \<not> runnable now q \<and> waitDeadline maxTime q = maxTime \<and>
          fst (wait_until maxTime now env (idle q)) = timeout \<longrightarrow>
            runNextTask maxTime now env q =
              (Returned False, snd (wait_until maxTime now env (idle q)))) \<and>
         (h \<longrightarrow> runnable n1 q1 \<and>
            runNextTask maxTime now env q =
              (case unlocked n1 e1 (called (func (hd (tasks q1))) (snd (popFront q1))) of
                 (n2, e2, q2) \<Rightarrow>
                   (case invoke (func (hd (tasks q1))) of
                      Some e \<Rightarrow> (Raised e, n2, e2, q2)
                    | None \<Rightarrow> (Returned True, n2, e2, taskDone q2)))) \<and>
         (\<not> h \<longrightarrow> runNextTask maxTime now env q = (Returned False, n1, e1, q1)) \<and>
         (fst (runNextTask maxTime now env q) = Returned True \<longleftrightarrow>
            h \<and> invoke (func (hd (tasks q1))) = None) \<and>
         (fst (runNextTask maxTime now env q) = Returned False \<longleftrightarrow> \<not> h) \<and>
         (env = [] \<longrightarrow>
            tasks q1 = tasks q \<and> currentRunningTasks q1 = currentRunningTasks q \<and>
            (h \<longleftrightarrow> \<not> disposed q \<and> tasks q \<noteq> [] \<and>
               currentRunningTasks q < maxConcurrentTasks q \<and> \<not> isBarrier (hd (tasks q)) \<and>
               (executeTime (hd (tasks q)) \<le> now \<or> executeTime (hd (tasks q)) < maxTime)))"
proof -
  have a: "disposed q \<longrightarrow> runNextTask maxTime now env q = (Returned False, now, env, q)"
    by (simp add: runNextTask_disposed)
  have b: "\<not> disposed q \<and> \<not> runnable now q \<and> waitDeadline maxTime q = maxTime \<and>
          fst (wait_until maxTime now env (idle q)) = timeout \<longrightarrow>
            runNextTask maxTime now env q =
              (Returned False, snd (wait_until maxTime now env (idle q)))"
    by (simp add: runNextTask_timeout)
  have r: "runnable n1 q1" if h
    using assms that by (simp add: nextTask_loop_hasTask)
  have c: "h \<longrightarrow> runnable n1 q1 \<and>
            runNextTask maxTime now env q =
              (case unlocked n1 e1 (called (func (hd (tasks q1))) (snd (popFront q1))) of
                 (n2, e2, q2) \<Rightarrow>
                   (case invoke (func (hd (tasks q1))) of
                      Some e \<Rightarrow> (Raised e, n2, e2, q2)
                    | None \<Rightarrow> (Returned True, n2, e2, taskDone q2)))"
  proof
    assume h
    from r [OF this] have "\<not> disposed q1" by (simp add: runnable_def)
    with \<open>h\<close> r assms show "runnable n1 q1 \<and>
            runNextTask maxTime now env q =
              (case unlocked n1 e1 (called (func (hd (tasks q1))) (snd (popFront q1))) of
                 (n2, e2, q2) \<Rightarrow>
                   (case invoke (func (hd (tasks q1))) of
                      Some e \<Rightarrow> (Raised e, n2, e2, q2)
                    | None \<Rightarrow> (Returned True, n2, e2, taskDone q2)))"
      by (simp add: runNextTask_loop)
  qed
  have d: "\<not> h \<longrightarrow> runNextTask maxTime now env q = (Returned False, n1, e1, q1)"
    using assms by (simp add: runNextTask_loop)
  have e: "fst (runNextTask maxTime now env q) = Returned True \<longleftrightarrow>
            h \<and> invoke (func (hd (tasks q1))) = None"
  proof (cases h)
    case True
    with c show ?thesis
      by (auto split: prod.splits option.splits)
  next
    case False
    with d show ?thesis by simp
  qed
  have f: "fst (runNextTask maxTime now env q) = Returned False \<longleftrightarrow> \<not> h"
  proof (cases h)
    case True
    with c show ?thesis
      by (auto split: prod.splits option.splits)
  next
    case False
    with d show ?thesis by simp
  qed
  have g: "env = [] \<longrightarrow>
            tasks q1 = tasks q \<and> currentRunningTasks q1 = currentRunningTasks q \<and>
            (h \<longleftrightarrow> \<not> disposed q \<and> tasks q \<noteq> [] \<and>
               currentRunningTasks q < maxConcurrentTasks q \<and> \<not> isBarrier (hd (tasks q)) \<and>
               (executeTime (hd (tasks q)) \<le> now \<or> executeTime (hd (tasks q)) < maxTime))"
  proof
    assume "env = []"
    with assms have l: "nextTask_loop maxTime now [] q = (h, n1, e1, q1)" by simp
    show "tasks q1 = tasks q \<and> currentRunningTasks q1 = currentRunningTasks q \<and>
            (h \<longleftrightarrow> \<not> disposed q \<and> tasks q \<noteq> [] \<and>
               currentRunningTasks q < maxConcurrentTasks q \<and> \<not> isBarrier (hd (tasks q)) \<and>
               (executeTime (hd (tasks q)) \<le> now \<or> executeTime (hd (tasks q)) < maxTime))"
      using l unfolding loop_nil
      by (auto simp: runnable_def idle_members split: if_splits)
  qed
  show ?thesis
    by (intro conjI) (rule a b c d e f g)+
qed

theorem runNextTask_outcome_witness:
  "nextTask_loop 10 5 []
     \<lparr>disposed = False, taskIdCounter = 1,
      tasks = [\<lparr>taskId = 1, func = Some (Returning 1), executeTime = 0, isBarrier = False\<rparr>],
      emptyFlag = False, firstFlag = False, currentRunningTasks = 0,
      maxConcurrentTasks = 1, listener = None, trace = []\<rparr> =
     (True, 5, [],
      \<lparr>disposed = False, taskIdCounter = 1,
       tasks = [\<lparr>taskId = 1, func = Some (Returning 1), executeTime = 0, isBarrier = False\<rparr>],
       emptyFlag = False, firstFlag = False, currentRunningTasks = 0,
       maxConcurrentTasks = 1, listener = None, trace = []\<rparr>) \<and>
   runNextTask 10 5 []
     \<lparr>disposed = False, taskIdCounter = 1,
      tasks = [\<lparr>taskId = 1, func = Some (Returning 1), executeTime = 0, isBarrier = False\<rparr>],
      emptyFlag = False, firstFlag = False, currentRunningTasks = 0,
      maxConcurrentTasks = 1, listener = None, trace = []\<rparr> =
     (Returned True, 5, [],
      \<lparr>disposed = False, taskIdCounter = 1, tasks = [],
       emptyFlag = False, firstFlag = False, currentRunningTasks = 0,
       maxConcurrentTasks = 1, listener = None, trace = [Invoked (Some (Returning 1))]\<rparr>) \<and>
   nextTask_loop 10 5 [] newTaskQueue = (False, 10, [], newTaskQueue) \<and>
   runNextTask 10 5 [] newTaskQueue = (Returned False, 10, [], newTaskQueue)"
proof -
  let ?q = "\<lparr>disposed = False, taskIdCounter = 1,
      tasks = [\<lparr>taskId = 1, func = Some (Returning 1), executeTime = 0, isBarrier = False\<rparr>],
      emptyFlag = False, firstFlag = False, currentRunningTasks = 0,
      maxConcurrentTasks = 1, listener = None, trace = []\<rparr>"
  have l: "nextTask_loop 10 5 [] ?q = (True, 5, [], ?q)"
    by (simp add: loop_runnable runnable_def)
  have m: "nextTask_loop 10 5 [] newTaskQueue = (False, 10, [], newTaskQueue)"
    by (simp add: loop_nil runnable_def idle_def noticeEmpty_def newTaskQueue_def)
  from runNextTask_outcome [OF l] runNextTask_outcome [OF m] l m show ?thesis
    by (simp add: unlocked_def called_def popFront_def taskDone_def size_inc_def size_dec_def)
qed

section \<open>What flush does\<close>

text \<open>
  C8: \<^verbatim>\<open>flush\<close> calls \<^verbatim>\<open>runNextTask\<close> with the clock of the moment as deadline, goes on
  with the clock as the call left it while the call returns true, and stops with the
  count at the first call that returns false. When no task is runnable it returns 0 at
  once, and the queue is what the one expired wait left of it; so with only tasks of
  the future pending it runs none of them. With no other thread acting it runs exactly
  the ready tasks at the front of the sequence, returns their number and leaves the
  others pending.
\<close>

theorem flush_outcome:
  "(runNextTask now now env q = (Returned True, now', env', q') \<longrightarrow>
      flush_loop n now env q = flush_loop (n + 1) now' env' q') \<and>
   (runNextTask now now env q = (Returned False, now', env', q') \<longrightarrow>
      flush_loop n now env q = (Returned n, now', env', q')) \<and>
   (\<not> runnable now q \<longrightarrow>
      flush now env q =
        (Returned 0,
         if disposed q then (now, env, q) else snd (wait_until now now env (idle q)))) \<and>
   (\<not> disposed q \<and> tasks q \<noteq> [] \<and> (\<forall>t\<in>set (tasks q). now < executeTime t) \<longrightarrow>
      flush now [] q = (Returned 0, now, [], q)) \<and>
   (\<not> disposed q \<and> currentRunningTasks q < maxConcurrentTasks q \<and>
    maxConcurrentTasks q < 2 ^ 64 \<and>
    (\<forall>t\<in>set (takeWhile (ready now) (tasks q)). invoke (func t) = None) \<longrightarrow>
      flush now [] q =
        (Returned (length (takeWhile (ready now) (tasks q))), now, [],
         idle (q\<lparr>tasks := dropWhile (ready now) (tasks q),
                 trace := trace q @
                   map (\<lambda>t. Invoked (func t)) (takeWhile (ready now) (tasks q))\<rparr>)))"
proof -
  have a: "runNextTask now now env q = (Returned True, now', env', q') \<longrightarrow>
      flush_loop n now env q = flush_loop (n + 1) now' env' q'"
    by (simp add: flush_loop_true)
  have b: "runNextTask now now env q = (Returned False, now', env', q') \<longrightarrow>
      flush_loop n now env q = (Returned n, now', env', q')"
    by (simp add: flush_loop_false)
  have c: "\<not> runnable now q \<longrightarrow>
      flush now env q =
        (Returned 0,
         if disposed q then (now, env, q) else snd (wait_until now now env (idle q)))"
    by (simp add: flush_def flush_loop_stops)
  have d: "\<not> disposed q \<and> tasks q \<noteq> [] \<and> (\<forall>t\<in>set (tasks q). now < executeTime t) \<longrightarrow>
      flush now [] q = (Returned 0, now, [], q)"
  proof
    assume p: "\<not> disposed q \<and> tasks q \<noteq> [] \<and> (\<forall>t\<in>set (tasks q). now < executeTime t)"
    then have "now < executeTime (hd (tasks q))" by simp
    then have nr: "\<not> runnable now q" by (simp add: runnable_def)
    from p show "flush now [] q = (Returned 0, now, [], q)"
      by (simp add: flush_def flush_loop_stops [OF nr] wait_until_def idle_def)
  qed
  have e: "\<not> disposed q \<and> currentRunningTasks q < maxConcurrentTasks q \<and>
    maxConcurrentTasks q < 2 ^ 64 \<and>
    (\<forall>t\<in>set (takeWhile (ready now) (tasks q)). invoke (func t) = None) \<longrightarrow>
      flush now [] q =
        (Returned (length (takeWhile (ready now) (tasks q))), now, [],
         idle (q\<lparr>tasks := dropWhile (ready now) (tasks q),
                 trace := trace q @
                   map (\<lambda>t. Invoked (func t)) (takeWhile (ready now) (tasks q))\<rparr>))"
    using flush_loop_nil [OF refl, of q now 0] by (simp add: flush_def)
  show ?thesis
    by (intro conjI) (rule a b c d e)+
qed

theorem flush_outcome_witness:
  "flush 5 []
     \<lparr>disposed = False, taskIdCounter = 3,
      tasks =
        [\<lparr>taskId = 1, func = Some (Returning 1), executeTime = 0, isBarrier = False\<rparr>,
         \<lparr>taskId = 2, func = Some (Returning 2), executeTime = 2, isBarrier = False\<rparr>,
         \<lparr>taskId = 3, func = Some (Returning 3), executeTime = 20, isBarrier = False\<rparr>],
      emptyFlag = False, firstFlag = False, currentRunningTasks = 0,
      maxConcurrentTasks = 1, listener = None, trace = []\<rparr> =
     (Returned 2, 5, [],
      \<lparr>disposed = False, taskIdCounter = 3,
       tasks =
         [\<lparr>taskId = 3, func = Some (Returning 3), executeTime = 20, isBarrier = False\<rparr>],
       emptyFlag = False, firstFlag = False, currentRunningTasks = 0,
       maxConcurrentTasks = 1, listener = None,
       trace = [Invoked (Some (Returning 1)), Invoked (Some (Returning 2))]\<rparr>) \<and>
   flush 5 []
     \<lparr>disposed = False, taskIdCounter = 3,
      tasks =
        [\<lparr>taskId = 3, func = Some (Returning 3), executeTime = 20, isBarrier = False\<rparr>],
      emptyFlag = False, firstFlag = False, currentRunningTasks = 0,
      maxConcurrentTasks = 1, listener = None, trace = []\<rparr> =
     (Returned 0, 5, [],
      \<lparr>disposed = False, taskIdCounter = 3,
       tasks =
         [\<lparr>taskId = 3, func = Some (Returning 3), executeTime = 20, isBarrier = False\<rparr>],
       emptyFlag = False, firstFlag = False, currentRunningTasks = 0,
       maxConcurrentTasks = 1, listener = None, trace = []\<rparr>)"
  using
    flush_outcome [of 5 "[]"
      "\<lparr>disposed = False, taskIdCounter = 3,
      tasks =
        [\<lparr>taskId = 1, func = Some (Returning 1), executeTime = 0, isBarrier = False\<rparr>,
         \<lparr>taskId = 2, func = Some (Returning 2), executeTime = 2, isBarrier = False\<rparr>,
         \<lparr>taskId = 3, func = Some (Returning 3), executeTime = 20, isBarrier = False\<rparr>],
      emptyFlag = False, firstFlag = False, currentRunningTasks = 0,
      maxConcurrentTasks = 1, listener = None, trace = []\<rparr>"]
    flush_outcome [of 5 "[]"
      "\<lparr>disposed = False, taskIdCounter = 3,
      tasks =
        [\<lparr>taskId = 3, func = Some (Returning 3), executeTime = 20, isBarrier = False\<rparr>],
      emptyFlag = False, firstFlag = False, currentRunningTasks = 0,
      maxConcurrentTasks = 1, listener = None, trace = []\<rparr>"]
  by (simp add: ready_def idle_def)

end
